theory Spec2Isabelle
  imports Main "HOL-Library.AList" "HOL-Library.Monad_Syntax"
begin

section \<open>The residual graph of \<open>network_flow.py\<close>\<close>

text \<open>
  The program works on a networkx \<open>DiGraph\<close>: a dictionary from nodes to adjacency
  dictionaries, which map each successor to the attribute dictionary of the edge. All
  three dictionaries keep insertion order, and the solvers iterate in that order, so the
  model uses association lists. An edge has the attributes \<open>capacity\<close> and \<open>flow\<close>;
  \<open>flow\<close> may be missing before \<open>prepare_graph\<close> has run, hence the option.
  Numbers are Python integers (\<open>int\<close>); \<open>app.py\<close> scales its capacities by a leakage
  factor, which makes them floats, whose rounding the model does not have. Python's limit on the depth of recursion is not
  modelled either: the nested \<open>dfs\<close> of \<open>dinic_apply\<close> and of \<open>extract_flow_paths\<close> recurse
  as deep as the graph asks.
\<close>

type_synonym node = string

record attrs =
  capacity :: int
  flow :: "int option"

type_synonym adjacency = "(node \<times> attrs) list"
type_synonym graph = "(node \<times> adjacency) list"

text \<open>
  Python raises \<open>KeyError\<close> when a dictionary has no such key (a node, a successor or the
  attribute \<open>flow\<close>), and networkx raises \<open>NetworkXError\<close> from \<open>G.predecessors\<close>. The
  solvers use \<open>float('inf')\<close> as a start value; \<open>ext\<close> adds it to the integers. A flow
  attribute that would become \<open>float('inf')\<close> is outside \<open>attrs\<close>: \<open>InfiniteFlow\<close>.
\<close>

datatype error = KeyError string | NetworkXError string | InfiniteFlow

datatype ext = Fin int | PInf

fun ext_min :: "ext \<Rightarrow> ext \<Rightarrow> ext" where
  "ext_min (Fin a) (Fin b) = Fin (min a b)"
| "ext_min (Fin a) PInf = Fin a"
| "ext_min PInf b = b"

fun ext_add :: "ext \<Rightarrow> ext \<Rightarrow> ext" where
  "ext_add (Fin a) (Fin b) = Fin (a + b)"
| "ext_add _ _ = PInf"

fun ext_pos :: "ext \<Rightarrow> bool" where
  "ext_pos (Fin a) = (0 < a)"
| "ext_pos PInf = True"

text \<open>
  A function that only reads returns \<open>error + 'a\<close>. A function that mutates the graph
  returns \<open>(error \<times> graph) + 'a\<close>: the graph beside the error is the graph as the
  exception leaves it.
\<close>

definition nodes :: "graph \<Rightarrow> node list" where
  "nodes G = map fst G"

definition has_node :: "graph \<Rightarrow> node \<Rightarrow> bool" where
  "has_node G u = (map_of G u \<noteq> None)"

definition adj :: "graph \<Rightarrow> node \<Rightarrow> error + adjacency" where
  "adj G u = (case map_of G u of None \<Rightarrow> Inl (KeyError u) | Some a \<Rightarrow> Inr a)"

text \<open>\<open>for v in G[u]\<close> and \<open>list(G[u])\<close>: the successors of \<open>u\<close> in insertion order.\<close>

definition succs :: "graph \<Rightarrow> node \<Rightarrow> error + node list" where
  "succs G u = (case adj G u of Inl e \<Rightarrow> Inl e | Inr a \<Rightarrow> Inr (map fst a))"

definition edges :: "graph \<Rightarrow> (node \<times> node) list" where
  "edges G = concat (map (\<lambda>(u, a). map (\<lambda>(v, _). (u, v)) a) G)"

definition has_edge :: "graph \<Rightarrow> node \<Rightarrow> node \<Rightarrow> bool" where
  "has_edge G u v = (case map_of G u of None \<Rightarrow> False | Some a \<Rightarrow> map_of a v \<noteq> None)"

text \<open>\<open>G[u][v]\<close>\<close>

definition edge_attrs :: "graph \<Rightarrow> node \<Rightarrow> node \<Rightarrow> error + attrs" where
  "edge_attrs G u v =
     (case adj G u of Inl e \<Rightarrow> Inl e
      | Inr a \<Rightarrow> (case map_of a v of None \<Rightarrow> Inl (KeyError v) | Some x \<Rightarrow> Inr x))"

text \<open>\<open>G[u][v]['capacity']\<close> and \<open>G[u][v]['flow']\<close>\<close>

definition get_capacity :: "graph \<Rightarrow> node \<Rightarrow> node \<Rightarrow> error + int" where
  "get_capacity G u v = (case edge_attrs G u v of Inl e \<Rightarrow> Inl e | Inr x \<Rightarrow> Inr (capacity x))"

definition get_flow :: "graph \<Rightarrow> node \<Rightarrow> node \<Rightarrow> error + int" where
  "get_flow G u v =
     (case edge_attrs G u v of Inl e \<Rightarrow> Inl e
      | Inr x \<Rightarrow> (case flow x of None \<Rightarrow> Inl (KeyError ''flow'') | Some f \<Rightarrow> Inr f))"

text \<open>\<open>G[u][v]['capacity'] - G[u][v]['flow']\<close>, the capacity read first.\<close>

definition residual :: "graph \<Rightarrow> node \<Rightarrow> node \<Rightarrow> error + int" where
  "residual G u v =
     (case get_capacity G u v of Inl e \<Rightarrow> Inl e
      | Inr c \<Rightarrow> (case get_flow G u v of Inl e \<Rightarrow> Inl e | Inr f \<Rightarrow> Inr (c - f)))"

text \<open>An in-place change of the attributes of the edge \<open>(u, v)\<close>.\<close>

definition upd_attrs :: "graph \<Rightarrow> node \<Rightarrow> node \<Rightarrow> (attrs \<Rightarrow> attrs) \<Rightarrow> graph" where
  "upd_attrs G u v f = AList.map_entry u (AList.map_entry v f) G"

text \<open>\<open>G[u][v]['flow'] = x\<close>: an assignment, which reads nothing of the old value.\<close>

definition set_flow :: "graph \<Rightarrow> node \<Rightarrow> node \<Rightarrow> int \<Rightarrow> error + graph" where
  "set_flow G u v x =
     (case edge_attrs G u v of Inl e \<Rightarrow> Inl e
      | Inr _ \<Rightarrow> Inr (upd_attrs G u v (\<lambda>a. a\<lparr>flow := Some x\<rparr>)))"

text \<open>\<open>G[u][v]['flow'] += d\<close>\<close>

definition add_flow :: "graph \<Rightarrow> node \<Rightarrow> node \<Rightarrow> int \<Rightarrow> error + graph" where
  "add_flow G u v d =
     (case get_flow G u v of Inl e \<Rightarrow> Inl e
      | Inr f \<Rightarrow> Inr (upd_attrs G u v (\<lambda>a. a\<lparr>flow := Some (f + d)\<rparr>)))"

text \<open>
  The pair of statements every solver uses to move flow:
  \<open>G[u][v]['flow'] += d; G[v][u]['flow'] -= d\<close>. If the second statement raises, the first
  has already happened.
\<close>

definition push_flow :: "graph \<Rightarrow> node \<Rightarrow> node \<Rightarrow> int \<Rightarrow> (error \<times> graph) + graph" where
  "push_flow G u v d =
     (case add_flow G u v d of Inl e \<Rightarrow> Inl (e, G)
      | Inr G1 \<Rightarrow> (case add_flow G1 v u (- d) of Inl e \<Rightarrow> Inl (e, G1) | Inr G2 \<Rightarrow> Inr G2))"

subsection \<open>\<open>prepare_graph\<close>\<close>

text \<open>
  \<open>G.add_edge(u, v, capacity=c, flow=f)\<close> of networkx: both end points become nodes if
  they are not (appended to the node dictionary), and \<open>v\<close> becomes the last successor of
  \<open>u\<close>, or keeps its place when the edge exists.
\<close>

definition add_node :: "graph \<Rightarrow> node \<Rightarrow> graph" where
  "add_node G n = (if has_node G n then G else G @ [(n, [])])"

definition add_edge :: "graph \<Rightarrow> node \<Rightarrow> node \<Rightarrow> attrs \<Rightarrow> graph" where
  "add_edge G u v a = AList.map_entry u (AList.update v a) (add_node (add_node G u) v)"

text \<open>
  \<open>G[u][v].setdefault('flow', 0)\<close>. The loop of \<open>prepare_graph\<close> runs over a snapshot of
  the edges and no edge is ever removed, so \<open>G[u][v]\<close> exists and the statement cannot raise.
\<close>

definition default_flow :: "attrs \<Rightarrow> attrs" where
  "default_flow a = (case flow a of None \<Rightarrow> a\<lparr>flow := Some 0\<rparr> | Some _ \<Rightarrow> a)"

definition setdefault_flow :: "graph \<Rightarrow> node \<Rightarrow> node \<Rightarrow> graph" where
  "setdefault_flow G u v = upd_attrs G u v default_flow"

definition prepare_edge :: "graph \<Rightarrow> node \<times> node \<Rightarrow> graph" where
  "prepare_edge G e =
     (case e of (u, v) \<Rightarrow>
        (let G1 = setdefault_flow G u v
         in if \<not> has_edge G1 v u
            then add_edge G1 v u \<lparr>capacity = 0, flow = Some 0\<rparr>
            else setdefault_flow G1 v u))"

definition prepare_graph :: "graph \<Rightarrow> graph" where
  "prepare_graph G = foldl prepare_edge G (edges G)"

subsection \<open>Edmonds-Karp\<close>

text \<open>
  The state of \<open>bfs\<close>: the set \<open>visited\<close> (a list, newest first; only membership is
  read), the dictionary \<open>parent\<close> and the queue \<open>q\<close>. \<open>bfs_scan\<close> is the \<open>for v in G[u]\<close>
  loop over the successors still to come; its flag says that \<open>bfs\<close> returned \<open>True\<close>
  from inside the loop.
\<close>

type_synonym bfs_state = "node list \<times> (node \<rightharpoonup> node) \<times> node list"

fun bfs_scan :: "graph \<Rightarrow> node \<Rightarrow> node \<Rightarrow> node list \<Rightarrow> bfs_state \<Rightarrow> error + (bool \<times> bfs_state)" where
  "bfs_scan G t u [] st = Inr (False, st)"
| "bfs_scan G t u (v # vs) (visited, parent, q) =
     (case get_capacity G u v of Inl e \<Rightarrow> Inl e
      | Inr cap \<Rightarrow>
     (case get_flow G u v of Inl e \<Rightarrow> Inl e
      | Inr fl \<Rightarrow>
        if v \<notin> set visited \<and> cap - fl > 0
        then (if v = t then Inr (True, v # visited, parent(v \<mapsto> u), q)
              else bfs_scan G t u vs (v # visited, parent(v \<mapsto> u), q @ [v]))
        else bfs_scan G t u vs (visited, parent, q)))"

text \<open>Every node that a scan can meet: the nodes and all successors.\<close>

definition universe :: "graph \<Rightarrow> node set" where
  "universe G = set (nodes G) \<union> set (map snd (edges G))"

definition bfs_measure :: "graph \<Rightarrow> bfs_state \<Rightarrow> nat" where
  "bfs_measure G st = (case st of (visited, parent, q) \<Rightarrow>
     2 * card (universe G - set visited) + length q)"

function (sequential) bfs_loop :: "graph \<Rightarrow> node \<Rightarrow> bfs_state \<Rightarrow> error + (bool \<times> (node \<rightharpoonup> node))" where
  "bfs_loop G t (visited, parent, []) = Inr (False, parent)"
| "bfs_loop G t (visited, parent, u # q) =
     (case succs G u of Inl e \<Rightarrow> Inl e
      | Inr vs \<Rightarrow>
     (case bfs_scan G t u vs (visited, parent, q) of Inl e \<Rightarrow> Inl e
      | Inr (found, st) \<Rightarrow>
        if found then Inr (True, fst (snd st)) else bfs_loop G t st))"
  by pat_completeness auto

lemma finite_universe: "finite (universe G)"
  by (simp add: universe_def)

lemma succs_universe: "succs G u = Inr vs \<Longrightarrow> set vs \<subseteq> universe G"
proof -
  assume a: "succs G u = Inr vs"
  then obtain a where m: "map_of G u = Some a" and vs: "vs = map fst a"
    by (auto simp: succs_def adj_def split: option.splits sum.splits)
  from m have "(u, a) \<in> set G" by (rule map_of_SomeD)
  then have "\<And>v. v \<in> set vs \<Longrightarrow> (u, v) \<in> set (edges G)"
    unfolding vs edges_def by force
  then show ?thesis unfolding universe_def by force
qed

lemma bfs_scan_measure:
  "bfs_scan G t u vs st = Inr (b, st') \<Longrightarrow> set vs \<subseteq> universe G \<Longrightarrow>
   bfs_measure G st' \<le> bfs_measure G st"
proof (induction G t u vs st rule: bfs_scan.induct)
  case (1 G t u st)
  then show ?case by simp
next
  case (2 G t u v vs visited parent q)
  from "2.prems" obtain cap fl where c: "get_capacity G u v = Inr cap" and f: "get_flow G u v = Inr fl"
    by (auto split: sum.splits)
  have vU: "v \<in> universe G" using "2.prems" by simp
  show ?case
  proof (cases "v \<notin> set visited \<and> cap - fl > 0")
    case True
    then have "v \<in> universe G - set visited" using vU by simp
    then have card: "card (universe G - set (v # visited)) < card (universe G - set visited)"
      by (intro psubset_card_mono) (auto simp: finite_universe)
    show ?thesis
    proof (cases "v = t")
      case vt: True
      with True c f "2.prems" card show ?thesis by (auto simp: bfs_measure_def)
    next
      case vt: False
      from "2.IH"(1)[OF c f True vt] True c f vt "2.prems"
      have "bfs_measure G st' \<le> bfs_measure G (v # visited, parent(v \<mapsto> u), q @ [v])" by simp
      with card show ?thesis by (simp add: bfs_measure_def)
    qed
  next
    case False
    from "2.IH"(2)[OF c f False] False c f "2.prems" show ?thesis by auto
  qed
qed

termination bfs_loop
proof (relation "measure (\<lambda>(G, t, st). bfs_measure G st)", goal_cases)
  case 1
  then show ?case by simp
next
  case (2 G t visited parent u q vs x y st)
  then have "bfs_scan G t u vs (visited, parent, q) = Inr (False, st)" by simp
  from bfs_scan_measure[OF this succs_universe[OF 2(1)]]
  show ?case by (simp add: bfs_measure_def)
qed

text \<open>\<open>bfs(G, s, t, parent)\<close>, called with an empty \<open>parent\<close> every time.\<close>

definition bfs :: "graph \<Rightarrow> node \<Rightarrow> node \<Rightarrow> error + (bool \<times> (node \<rightharpoonup> node))" where
  "bfs G s t = bfs_loop G t ([s], Map.empty, [s])"

text \<open>
  The inner loop of \<open>edmonds_karp_steps\<close> walks from \<open>t\<close> back to \<open>s\<close> along \<open>parent\<close>:
  \<open>while v != s: u = parent[v]; path_flow = min(path_flow, residual); path.insert(0, (u, v)); v = u\<close>.
\<close>

partial_function (option) walk ::
  "graph \<Rightarrow> node \<Rightarrow> (node \<rightharpoonup> node) \<Rightarrow> node \<Rightarrow> ext \<Rightarrow> (node \<times> node) list
   \<Rightarrow> (error + (ext \<times> (node \<times> node) list)) option" where
  "walk G s parent v path_flow path =
     (if v \<noteq> s
      then (case parent v of None \<Rightarrow> Some (Inl (KeyError v))
            | Some u \<Rightarrow>
           (case residual G u v of Inl e \<Rightarrow> Some (Inl e)
            | Inr r \<Rightarrow> walk G s parent u (ext_min path_flow (Fin r)) ((u, v) # path)))
      else Some (Inr (path_flow, path)))"

declare walk.simps [code]

text \<open>
  \<open>for u, v in path: G[u][v]['flow'] += path_flow; G[v][u]['flow'] -= path_flow\<close>.
  The loop body runs only for a non-empty path, whose \<open>path_flow\<close> is a residual capacity
  or smaller, so the \<open>PInf\<close> case of the body is never reached by \<open>edmonds_karp_steps\<close>.
\<close>

fun augment :: "graph \<Rightarrow> (node \<times> node) list \<Rightarrow> ext \<Rightarrow> (error \<times> graph) + graph" where
  "augment G [] path_flow = Inr G"
| "augment G ((u, v) # path) (Fin d) =
     (case push_flow G u v d of Inl e \<Rightarrow> Inl e | Inr G' \<Rightarrow> augment G' path (Fin d))"
| "augment G ((u, v) # path) PInf = Inl (InfiniteFlow, G)"

type_synonym step = "(node \<times> node) list \<times> ext \<times> ext"

text \<open>The \<open>while bfs(G, s, t, parent)\<close> loop. A result is \<open>(steps, max_flow)\<close> and the graph.\<close>

partial_function (option) ek_loop ::
  "node \<Rightarrow> node \<Rightarrow> graph \<Rightarrow> ext \<Rightarrow> step list
   \<Rightarrow> ((error \<times> graph) + ((step list \<times> ext) \<times> graph)) option" where
  "ek_loop s t G max_flow steps =
     (case bfs G s t of Inl e \<Rightarrow> Some (Inl (e, G))
      | Inr (found, parent) \<Rightarrow>
        if found
        then Option.bind (walk G s parent t PInf []) (\<lambda>r.
             case r of Inl e \<Rightarrow> Some (Inl (e, G))
             | Inr (path_flow, path) \<Rightarrow>
            (case augment G path path_flow of Inl e \<Rightarrow> Some (Inl e)
             | Inr G' \<Rightarrow>
                 ek_loop s t G' (ext_add max_flow path_flow)
                   (steps @ [(path, path_flow, ext_add max_flow path_flow)])))
        else Some (Inr ((steps, max_flow), G)))"

declare ek_loop.simps [code]

text \<open>\<open>for u, v in G.edges(): G[u][v]['flow'] = 0\<close>\<close>

definition reset_flows :: "graph \<Rightarrow> graph" where
  "reset_flows G = foldl (\<lambda>H e. case e of (u, v) \<Rightarrow> upd_attrs H u v (\<lambda>a. a\<lparr>flow := Some 0\<rparr>)) G (edges G)"

definition edmonds_karp_steps ::
  "graph \<Rightarrow> node \<Rightarrow> node \<Rightarrow> ((error \<times> graph) + ((step list \<times> ext) \<times> graph)) option" where
  "edmonds_karp_steps G s t = ek_loop s t (reset_flows (prepare_graph G)) (Fin 0) []"

subsection \<open>Dinic\<close>

text \<open>
  \<open>bfs_level\<close>: \<open>level_scan\<close> is its \<open>for v in G[u]\<close> loop, \<open>bfs_level_loop\<close> its
  \<open>while q\<close> loop. In \<open>level[v] < 0 and residual > 0\<close> the residual is read only when the
  level is negative.
\<close>

fun level_scan ::
  "graph \<Rightarrow> node \<Rightarrow> node list \<Rightarrow> (node \<rightharpoonup> int) \<times> node list
   \<Rightarrow> error + ((node \<rightharpoonup> int) \<times> node list)" where
  "level_scan G u [] st = Inr st"
| "level_scan G u (v # vs) (level, q) =
     (case level v of None \<Rightarrow> Inl (KeyError v)
      | Some lv \<Rightarrow>
        if lv < 0
        then (case residual G u v of Inl e \<Rightarrow> Inl e
              | Inr r \<Rightarrow>
                if r > 0
                then (case level u of None \<Rightarrow> Inl (KeyError u)
                      | Some lu \<Rightarrow> level_scan G u vs (level(v \<mapsto> lu + 1), q @ [v]))
                else level_scan G u vs (level, q))
        else level_scan G u vs (level, q))"

partial_function (option) bfs_level_loop ::
  "graph \<Rightarrow> (node \<rightharpoonup> int) \<Rightarrow> node list \<Rightarrow> (error + (node \<rightharpoonup> int)) option" where
  "bfs_level_loop G level q =
     (case q of [] \<Rightarrow> Some (Inr level)
      | u # q' \<Rightarrow>
       (case succs G u of Inl e \<Rightarrow> Some (Inl e)
        | Inr vs \<Rightarrow>
         (case level_scan G u vs (level, q') of Inl e \<Rightarrow> Some (Inl e)
          | Inr st \<Rightarrow> bfs_level_loop G (fst st) (snd st))))"

declare bfs_level_loop.simps [code]

text \<open>\<open>{n: x for n in G.nodes()}\<close>\<close>

definition node_dict :: "graph \<Rightarrow> 'a \<Rightarrow> (node \<rightharpoonup> 'a)" where
  "node_dict G x = (\<lambda>n. if n \<in> set (nodes G) then Some x else None)"

definition bfs_level :: "graph \<Rightarrow> node \<Rightarrow> (error + (node \<rightharpoonup> int)) option" where
  "bfs_level G s = bfs_level_loop G ((node_dict G (- 1))(s \<mapsto> 0)) [s]"

text \<open>
  \<open>dfs(u, pushed, t, level, it)\<close>. The body is \<open>if u == t: return pushed\<close> followed by the
  \<open>while it[u] < len(G[u])\<close> loop, and the loop reads \<open>it[u]\<close> afresh each time round, so the
  next round of the loop is \<open>dinic_dfs\<close> at the same \<open>u\<close> and \<open>pushed\<close> on the changed
  state. The graph and \<open>it\<close> are the state; the result is the returned flow with both.
  A recursive call gets the minimum of \<open>pushed\<close> and a residual capacity and returns that
  or less, so the flow it returns is finite where it is added to an edge.
\<close>

partial_function (option) dinic_dfs ::
  "node \<Rightarrow> (node \<rightharpoonup> int) \<Rightarrow> node \<Rightarrow> ext \<Rightarrow> graph \<Rightarrow> (node \<rightharpoonup> nat)
   \<Rightarrow> ((error \<times> graph) + (ext \<times> graph \<times> (node \<rightharpoonup> nat))) option" where
  "dinic_dfs t level u pushed G it =
     (if u = t then Some (Inr (pushed, G, it))
      else
       (case it u of None \<Rightarrow> Some (Inl (KeyError u, G))
        | Some i \<Rightarrow>
       (case succs G u of Inl e \<Rightarrow> Some (Inl (e, G))
        | Inr vs \<Rightarrow>
          if i < length vs
          then
           (let v = vs ! i; it1 = it(u \<mapsto> i + 1)
            in (case level v of None \<Rightarrow> Some (Inl (KeyError v, G))
                | Some lv \<Rightarrow>
               (case level u of None \<Rightarrow> Some (Inl (KeyError u, G))
                | Some lu \<Rightarrow>
                  if lv = lu + 1
                  then (case residual G u v of Inl e \<Rightarrow> Some (Inl (e, G))
                        | Inr r \<Rightarrow>
                          if r > 0
                          then Option.bind (dinic_dfs t level v (ext_min pushed (Fin r)) G it1) (\<lambda>res.
                               case res of Inl e \<Rightarrow> Some (Inl e)
                               | Inr (fl, G2, it2) \<Rightarrow>
                                 if ext_pos fl
                                 then (case fl of PInf \<Rightarrow> Some (Inl (InfiniteFlow, G2))
                                       | Fin d \<Rightarrow>
                                      (case push_flow G2 u v d of Inl e \<Rightarrow> Some (Inl e)
                                       | Inr G3 \<Rightarrow> Some (Inr (fl, G3, it2))))
                                 else dinic_dfs t level u pushed G2 it2)
                          else dinic_dfs t level u pushed G it1)
                  else dinic_dfs t level u pushed G it1)))
          else Some (Inr (Fin 0, G, it)))))"

declare dinic_dfs.simps [code]

text \<open>
  The inner \<open>while True\<close> loop of \<open>dinic_apply\<close>:
  \<open>pushed = dfs(s, float('inf'), t, level, it); if pushed <= 0: break; max_flow += pushed\<close>.
\<close>

partial_function (option) blocking_flow ::
  "node \<Rightarrow> node \<Rightarrow> (node \<rightharpoonup> int) \<Rightarrow> graph \<Rightarrow> (node \<rightharpoonup> nat) \<Rightarrow> ext
   \<Rightarrow> ((error \<times> graph) + (ext \<times> graph)) option" where
  "blocking_flow s t level G it max_flow =
     Option.bind (dinic_dfs t level s PInf G it) (\<lambda>res.
       case res of Inl e \<Rightarrow> Some (Inl e)
       | Inr (pushed, G2, it2) \<Rightarrow>
           if \<not> ext_pos pushed then Some (Inr (max_flow, G2))
           else blocking_flow s t level G2 it2 (ext_add max_flow pushed))"

declare blocking_flow.simps [code]

text \<open>The outer \<open>while True\<close> loop: a new level graph, \<open>break\<close> when \<open>level[t] < 0\<close>.\<close>

partial_function (option) dinic_loop ::
  "node \<Rightarrow> node \<Rightarrow> graph \<Rightarrow> ext \<Rightarrow> ((error \<times> graph) + (ext \<times> graph)) option" where
  "dinic_loop s t G max_flow =
     Option.bind (bfs_level G s) (\<lambda>res.
       case res of Inl e \<Rightarrow> Some (Inl (e, G))
       | Inr level \<Rightarrow>
          (case level t of None \<Rightarrow> Some (Inl (KeyError t, G))
           | Some lt \<Rightarrow>
               if lt < 0 then Some (Inr (max_flow, G))
               else Option.bind (blocking_flow s t level G (node_dict G 0) max_flow) (\<lambda>res2.
                    case res2 of Inl e \<Rightarrow> Some (Inl e)
                    | Inr (max_flow2, G2) \<Rightarrow> dinic_loop s t G2 max_flow2)))"

declare dinic_loop.simps [code]

definition dinic_apply :: "graph \<Rightarrow> node \<Rightarrow> node \<Rightarrow> ((error \<times> graph) + (ext \<times> graph)) option" where
  "dinic_apply G s t = dinic_loop s t (prepare_graph G) (Fin 0)"

subsection \<open>Push-relabel\<close>

text \<open>
  The loop that saturates the edges out of the source:
  \<open>cap = G[s][v]['capacity']; G[s][v]['flow'] = cap; G[v][s]['flow'] -= cap; excess[v] += cap\<close>.
\<close>

fun saturate ::
  "node \<Rightarrow> node list \<Rightarrow> graph \<times> (node \<rightharpoonup> int) \<Rightarrow> (error \<times> graph) + (graph \<times> (node \<rightharpoonup> int))" where
  "saturate s [] st = Inr st"
| "saturate s (v # vs) (G, excess) =
     (case get_capacity G s v of Inl e \<Rightarrow> Inl (e, G)
      | Inr cap \<Rightarrow>
     (case set_flow G s v cap of Inl e \<Rightarrow> Inl (e, G)
      | Inr G1 \<Rightarrow>
     (case add_flow G1 v s (- cap) of Inl e \<Rightarrow> Inl (e, G1)
      | Inr G2 \<Rightarrow>
     (case excess v of None \<Rightarrow> Inl (KeyError v, G2)
      | Some x \<Rightarrow> saturate s vs (G2, excess(v \<mapsto> x + cap))))))"

text \<open>\<open>[u for u in G.nodes() if u not in (s, t) and excess[u] > 0]\<close>\<close>

fun initial_active :: "node \<Rightarrow> node \<Rightarrow> (node \<rightharpoonup> int) \<Rightarrow> node list \<Rightarrow> error + node list" where
  "initial_active s t excess [] = Inr []"
| "initial_active s t excess (u # us) =
     (if u \<noteq> s \<and> u \<noteq> t
      then (case excess u of None \<Rightarrow> Inl (KeyError u)
            | Some x \<Rightarrow>
           (case initial_active s t excess us of Inl e \<Rightarrow> Inl e
            | Inr r \<Rightarrow> Inr (if x > 0 then u # r else r)))
      else initial_active s t excess us)"

text \<open>\<open>push(u, v)\<close>; the state is the graph and \<open>excess\<close>.\<close>

definition push ::
  "node \<Rightarrow> node \<Rightarrow> graph \<times> (node \<rightharpoonup> int)
   \<Rightarrow> (error \<times> graph) + (bool \<times> graph \<times> (node \<rightharpoonup> int))" where
  "push u v st = (case st of (G, excess) \<Rightarrow>
     (case excess u of None \<Rightarrow> Inl (KeyError u, G)
      | Some xu \<Rightarrow>
     (case residual G u v of Inl e \<Rightarrow> Inl (e, G)
      | Inr r \<Rightarrow>
        (let send = min xu r
         in if send \<le> 0 then Inr (False, G, excess)
            else (case push_flow G u v send of Inl e \<Rightarrow> Inl e
                  | Inr G2 \<Rightarrow>
                    (let excess1 = excess(u \<mapsto> xu - send)
                     in (case excess1 v of None \<Rightarrow> Inl (KeyError v, G2)
                         | Some xv \<Rightarrow> Inr (True, G2, excess1(v \<mapsto> xv + send)))))))))"

text \<open>\<open>relabel(u)\<close>: \<open>min_height\<close> is its loop, \<open>PInf\<close> the start value of \<open>min_h\<close>.\<close>

fun min_height :: "graph \<Rightarrow> (node \<rightharpoonup> int) \<Rightarrow> node \<Rightarrow> node list \<Rightarrow> ext \<Rightarrow> error + ext" where
  "min_height G height u [] min_h = Inr min_h"
| "min_height G height u (v # vs) min_h =
     (case residual G u v of Inl e \<Rightarrow> Inl e
      | Inr r \<Rightarrow>
        if r > 0
        then (case height v of None \<Rightarrow> Inl (KeyError v)
              | Some h \<Rightarrow> min_height G height u vs (ext_min min_h (Fin h)))
        else min_height G height u vs min_h)"

definition relabel :: "graph \<Rightarrow> node \<Rightarrow> (node \<rightharpoonup> int) \<Rightarrow> error + (node \<rightharpoonup> int)" where
  "relabel G u height =
     (case succs G u of Inl e \<Rightarrow> Inl e
      | Inr vs \<Rightarrow>
     (case min_height G height u vs PInf of Inl e \<Rightarrow> Inl e
      | Inr PInf \<Rightarrow> Inr height
      | Inr (Fin m) \<Rightarrow> Inr (height(u \<mapsto> m + 1))))"

text \<open>
  The \<open>for v in G[u]\<close> loop of the main loop: push to every successor, put a successor
  that got excess on the worklist, stop when \<open>u\<close> has no excess left.
\<close>

fun discharge ::
  "node \<Rightarrow> node \<Rightarrow> node \<Rightarrow> node list \<Rightarrow> graph \<times> (node \<rightharpoonup> int) \<times> node list
   \<Rightarrow> (error \<times> graph) + (graph \<times> (node \<rightharpoonup> int) \<times> node list)" where
  "discharge s t u [] st = Inr st"
| "discharge s t u (v # vs) (G, excess, active) =
     (case push u v (G, excess) of Inl e \<Rightarrow> Inl e
      | Inr (pushed, G2, excess2) \<Rightarrow>
        if pushed
        then (case (if v \<noteq> s \<and> v \<noteq> t
                    then (case excess2 v of None \<Rightarrow> Inl (KeyError v, G2)
                          | Some xv \<Rightarrow>
                              Inr (if xv > 0 \<and> v \<notin> set active then active @ [v] else active))
                    else Inr active)
              of Inl e \<Rightarrow> Inl e
              | Inr active2 \<Rightarrow>
             (case excess2 u of None \<Rightarrow> Inl (KeyError u, G2)
              | Some xu \<Rightarrow>
                  if xu = 0 then Inr (G2, excess2, active2)
                  else discharge s t u vs (G2, excess2, active2)))
        else discharge s t u vs (G2, excess2, active))"

record pr_state =
  pr_graph :: graph
  pr_height :: "node \<rightharpoonup> int"
  pr_excess :: "node \<rightharpoonup> int"
  pr_active :: "node list"
  pr_i :: nat

text \<open>
  One round of \<open>while i < len(active)\<close>, for \<open>i < len(active)\<close>;
  \<open>active.insert(0, active.pop(i))\<close> moves the entry at \<open>i\<close> to the front.
\<close>

definition pr_round :: "node \<Rightarrow> node \<Rightarrow> pr_state \<Rightarrow> (error \<times> graph) + pr_state" where
  "pr_round s t st =
     (let u = pr_active st ! pr_i st; G = pr_graph st
      in (case pr_height st u of None \<Rightarrow> Inl (KeyError u, G)
          | Some old_h \<Rightarrow>
         (case succs G u of Inl e \<Rightarrow> Inl (e, G)
          | Inr vs \<Rightarrow>
         (case discharge s t u vs (G, pr_excess st, pr_active st) of Inl e \<Rightarrow> Inl e
          | Inr (G2, excess2, active2) \<Rightarrow>
         (case excess2 u of None \<Rightarrow> Inl (KeyError u, G2)
          | Some xu \<Rightarrow>
         (case (if xu > 0 then relabel G2 u (pr_height st) else Inr (pr_height st))
          of Inl e \<Rightarrow> Inl (e, G2)
          | Inr height2 \<Rightarrow>
         (case height2 u of None \<Rightarrow> Inl (KeyError u, G2)
          | Some h \<Rightarrow>
              if h > old_h
              then Inr \<lparr>pr_graph = G2, pr_height = height2, pr_excess = excess2,
                        pr_active = (active2 ! pr_i st) # (take (pr_i st) active2 @ drop (Suc (pr_i st)) active2),
                        pr_i = 0\<rparr>
              else Inr \<lparr>pr_graph = G2, pr_height = height2, pr_excess = excess2,
                        pr_active = active2, pr_i = pr_i st + 1\<rparr>)))))))"

partial_function (option) pr_loop :: "node \<Rightarrow> node \<Rightarrow> pr_state \<Rightarrow> ((error \<times> graph) + pr_state) option" where
  "pr_loop s t st =
     (if pr_i st < length (pr_active st)
      then (case pr_round s t st of Inl e \<Rightarrow> Some (Inl e) | Inr st2 \<Rightarrow> pr_loop s t st2)
      else Some (Inr st))"

declare pr_loop.simps [code]

text \<open>Everything before the main loop, on the prepared graph.\<close>

definition pr_init :: "graph \<Rightarrow> node \<Rightarrow> node \<Rightarrow> (error \<times> graph) + pr_state" where
  "pr_init G s t =
     (let n = int (length (nodes G));
          height = (node_dict G 0)(s \<mapsto> n);
          excess = node_dict G 0
      in (case succs G s of Inl e \<Rightarrow> Inl (e, G)
          | Inr vs \<Rightarrow>
         (case saturate s vs (G, excess) of Inl e \<Rightarrow> Inl e
          | Inr (G2, excess2) \<Rightarrow>
         (case initial_active s t excess2 (nodes G2) of Inl e \<Rightarrow> Inl (e, G2)
          | Inr active \<Rightarrow>
              Inr \<lparr>pr_graph = G2, pr_height = height, pr_excess = excess2,
                   pr_active = active, pr_i = 0\<rparr>))))"

text \<open>
  \<open>G.predecessors(t)\<close> raises \<open>NetworkXError\<close> when \<open>t\<close> is not a node. networkx yields the
  predecessors in the order their edges were added; the model lists them in node order,
  and the sum below does not depend on the order.
\<close>

definition predecessors :: "graph \<Rightarrow> node \<Rightarrow> error + node list" where
  "predecessors G t =
     (if has_node G t then Inr (filter (\<lambda>u. has_edge G u t) (nodes G))
      else Inl (NetworkXError t))"

fun flow_into :: "graph \<Rightarrow> node \<Rightarrow> node list \<Rightarrow> int \<Rightarrow> error + int" where
  "flow_into G t [] flow_into_t = Inr flow_into_t"
| "flow_into G t (u # us) flow_into_t =
     (case get_flow G u t of Inl e \<Rightarrow> Inl e
      | Inr f \<Rightarrow> flow_into G t us (if f > 0 then flow_into_t + f else flow_into_t))"

definition push_relabel_apply ::
  "graph \<Rightarrow> node \<Rightarrow> node \<Rightarrow> ((error \<times> graph) + (int \<times> graph)) option" where
  "push_relabel_apply G0 s t =
     (case pr_init (prepare_graph G0) s t of Inl e \<Rightarrow> Some (Inl e)
      | Inr st0 \<Rightarrow>
          Option.bind (pr_loop s t st0) (\<lambda>res.
            case res of Inl e \<Rightarrow> Some (Inl e)
            | Inr st \<Rightarrow>
               (case predecessors (pr_graph st) t of Inl e \<Rightarrow> Some (Inl (e, pr_graph st))
                | Inr us \<Rightarrow>
                   (case flow_into (pr_graph st) t us 0 of Inl e \<Rightarrow> Some (Inl (e, pr_graph st))
                    | Inr f \<Rightarrow> Some (Inr (f, pr_graph st))))))"

subsection \<open>Minimum cut\<close>

text \<open>
  The \<open>while stack\<close> loop of \<open>min_cut_report\<close>. The stack is kept with its top first, so
  \<open>stack.pop()\<close> takes the head and \<open>stack.append(v)\<close> conses. \<open>visited\<close> is a Python set:
  the list holds it in the order of insertion.
\<close>

fun stack_succs :: "graph \<Rightarrow> node \<Rightarrow> node list \<Rightarrow> node list \<Rightarrow> error + node list" where
  "stack_succs G u [] stack = Inr stack"
| "stack_succs G u (v # vs) stack =
     (case residual G u v of Inl e \<Rightarrow> Inl e
      | Inr r \<Rightarrow> stack_succs G u vs (if r > 0 then v # stack else stack))"

function (sequential) reach :: "graph \<Rightarrow> node list \<Rightarrow> node list \<Rightarrow> error + node list" where
  "reach G visited [] = Inr visited"
| "reach G visited (u # stack) =
     (if u \<notin> set visited
      then (case succs G u of Inl e \<Rightarrow> Inl e
            | Inr vs \<Rightarrow>
           (case stack_succs G u vs stack of Inl e \<Rightarrow> Inl e
            | Inr stack2 \<Rightarrow> reach G (visited @ [u]) stack2))
      else reach G visited stack)"
  by pat_completeness auto

lemma succs_node: "succs G u = Inr vs \<Longrightarrow> u \<in> universe G"
  by (auto simp: succs_def adj_def universe_def nodes_def split: option.splits sum.splits
      dest!: map_of_SomeD intro!: image_eqI[where x="(u, _)"])

termination reach
proof (relation "measures [\<lambda>(G, visited, stack). card (universe G - set visited),
                           \<lambda>(G, visited, stack). length stack]", goal_cases)
  case 1
  then show ?case by simp
next
  case (2 G visited u stack vs stack2)
  then have "u \<in> universe G - set visited" by (simp add: succs_node)
  then have "card (universe G - set (visited @ [u])) < card (universe G - set visited)"
    by (intro psubset_card_mono) (auto simp: finite_universe)
  then show ?case by simp
next
  case (3 G visited u stack)
  then show ?case by simp
qed

text \<open>
  The two \<open>for\<close> loops that collect the cut. Python iterates the set \<open>visited\<close> in an
  order of its own; \<open>cut_loop\<close> takes the order as the list \<open>us\<close>.
\<close>

type_synonym cut_edge = "node \<times> node \<times> int"

fun cut_scan :: "graph \<Rightarrow> node list \<Rightarrow> node \<Rightarrow> node list \<Rightarrow> cut_edge list \<Rightarrow> error + cut_edge list" where
  "cut_scan G visited u [] cuts = Inr cuts"
| "cut_scan G visited u (v # vs) cuts =
     (if v \<notin> set visited
      then (case get_capacity G u v of Inl e \<Rightarrow> Inl e
            | Inr c \<Rightarrow> cut_scan G visited u vs (if c > 0 then cuts @ [(u, v, c)] else cuts))
      else cut_scan G visited u vs cuts)"

fun cut_loop :: "graph \<Rightarrow> node list \<Rightarrow> node list \<Rightarrow> cut_edge list \<Rightarrow> error + cut_edge list" where
  "cut_loop G visited [] cuts = Inr cuts"
| "cut_loop G visited (u # us) cuts =
     (case succs G u of Inl e \<Rightarrow> Inl e
      | Inr vs \<Rightarrow>
     (case cut_scan G visited u vs cuts of Inl e \<Rightarrow> Inl e
      | Inr cuts2 \<Rightarrow> cut_loop G visited us cuts2))"

definition min_cut_report :: "graph \<Rightarrow> node \<Rightarrow> error + cut_edge list" where
  "min_cut_report G s =
     (case reach G [] [s] of Inl e \<Rightarrow> Inl e
      | Inr visited \<Rightarrow> cut_loop G visited visited [])"

subsection \<open>Flow paths\<close>

type_synonym flow_path = "node list \<times> int"

text \<open>
  The nested \<open>dfs(u, path, f)\<close> of \<open>extract_flow_paths\<close> is \<open>if u == t: paths.append((path, f))\<close>
  or else the loop \<open>for v in list(G[u])\<close>. \<open>paths_loop\<close> is that loop on the successors
  still to come, with the call \<open>dfs(v, path + [v], min(f, flow))\<close> written out inside it.
  The state is the graph and \<open>paths\<close>.
\<close>

partial_function (option) paths_loop ::
  "node \<Rightarrow> node \<Rightarrow> node list \<Rightarrow> node list \<Rightarrow> int \<Rightarrow> graph \<Rightarrow> flow_path list
   \<Rightarrow> ((error \<times> graph) + (graph \<times> flow_path list)) option" where
  "paths_loop t u vs path f G paths =
     (case vs of [] \<Rightarrow> Some (Inr (G, paths))
      | v # vs' \<Rightarrow>
       (case get_flow G u v of Inl e \<Rightarrow> Some (Inl (e, G))
        | Inr fl \<Rightarrow>
          if fl > 0
          then (case add_flow G u v (- fl) of Inl e \<Rightarrow> Some (Inl (e, G))
                | Inr G1 \<Rightarrow>
                  Option.bind
                    (if v = t then Some (Inr (G1, paths @ [(path @ [v], min f fl)]))
                     else (case succs G1 v of Inl e \<Rightarrow> Some (Inl (e, G1))
                           | Inr ws \<Rightarrow> paths_loop t v ws (path @ [v]) (min f fl) G1 paths))
                    (\<lambda>res. case res of Inl e \<Rightarrow> Some (Inl e)
                           | Inr (G2, paths2) \<Rightarrow> paths_loop t u vs' path f G2 paths2))
          else paths_loop t u vs' path f G paths))"

declare paths_loop.simps [code]

definition paths_dfs ::
  "node \<Rightarrow> node \<Rightarrow> node list \<Rightarrow> int \<Rightarrow> graph \<Rightarrow> flow_path list
   \<Rightarrow> ((error \<times> graph) + (graph \<times> flow_path list)) option" where
  "paths_dfs t u path f G paths =
     (if u = t then Some (Inr (G, paths @ [(path, f)]))
      else (case succs G u of Inl e \<Rightarrow> Some (Inl (e, G))
            | Inr vs \<Rightarrow> paths_loop t u vs path f G paths))"

text \<open>
  The loop of \<open>extract_flow_paths\<close> itself, over \<open>list(G[s])\<close>:
  \<open>flow = G[s][v]['flow']; if flow > 0: G[s][v]['flow'] -= flow; dfs(v, [s, v], flow)\<close>.
\<close>

fun paths_top ::
  "node \<Rightarrow> node \<Rightarrow> node list \<Rightarrow> graph \<Rightarrow> flow_path list
   \<Rightarrow> ((error \<times> graph) + (graph \<times> flow_path list)) option" where
  "paths_top s t [] G paths = Some (Inr (G, paths))"
| "paths_top s t (v # vs) G paths =
     (case get_flow G s v of Inl e \<Rightarrow> Some (Inl (e, G))
      | Inr fl \<Rightarrow>
        if fl > 0
        then (case add_flow G s v (- fl) of Inl e \<Rightarrow> Some (Inl (e, G))
              | Inr G1 \<Rightarrow>
                Option.bind (paths_dfs t v [s, v] fl G1 paths) (\<lambda>res.
                  case res of Inl e \<Rightarrow> Some (Inl e)
                  | Inr (G2, paths2) \<Rightarrow> paths_top s t vs G2 paths2))
        else paths_top s t vs G paths)"

definition extract_flow_paths ::
  "graph \<Rightarrow> node \<Rightarrow> node \<Rightarrow> ((error \<times> graph) + (flow_path list \<times> graph)) option" where
  "extract_flow_paths G0 s t =
     (let G = prepare_graph G0
      in (case succs G s of Inl e \<Rightarrow> Some (Inl (e, G))
          | Inr vs \<Rightarrow>
              Option.bind (paths_top s t vs G []) (\<lambda>res.
                case res of Inl e \<Rightarrow> Some (Inl e)
                | Inr (G2, paths) \<Rightarrow> Some (Inr (paths, G2)))))"

section \<open>Scenarios\<close>

text \<open>
  The line network of the specification, \<open>S \<rightarrow> A\<close> of capacity 5 and \<open>A \<rightarrow> T\<close> of
  capacity 3, as \<open>G.add_edge\<close> builds it from capacities alone; the same graph prepared;
  and the same graph with the maximum flow on it.
\<close>

definition line :: graph where
  "line =
     [(''S'', [(''A'', \<lparr>capacity = 5, flow = None\<rparr>)]),
      (''A'', [(''T'', \<lparr>capacity = 3, flow = None\<rparr>)]),
      (''T'', [])]"

text \<open>The line network as \<open>app.py\<close> builds it, with \<open>flow=0\<close> on every edge.\<close>

definition line_app :: graph where
  "line_app =
     [(''S'', [(''A'', \<lparr>capacity = 5, flow = Some 0\<rparr>)]),
      (''A'', [(''T'', \<lparr>capacity = 3, flow = Some 0\<rparr>)]),
      (''T'', [])]"

definition line_prepared :: graph where
  "line_prepared =
     [(''S'', [(''A'', \<lparr>capacity = 5, flow = Some 0\<rparr>)]),
      (''A'', [(''T'', \<lparr>capacity = 3, flow = Some 0\<rparr>), (''S'', \<lparr>capacity = 0, flow = Some 0\<rparr>)]),
      (''T'', [(''A'', \<lparr>capacity = 0, flow = Some 0\<rparr>)])]"

definition line_solved :: graph where
  "line_solved =
     [(''S'', [(''A'', \<lparr>capacity = 5, flow = Some 3\<rparr>)]),
      (''A'', [(''T'', \<lparr>capacity = 3, flow = Some 3\<rparr>), (''S'', \<lparr>capacity = 0, flow = Some (- 3)\<rparr>)]),
      (''T'', [(''A'', \<lparr>capacity = 0, flow = Some (- 3)\<rparr>)])]"

text \<open>
  What \<open>push_relabel_apply\<close> leaves when it is run on \<open>line_solved\<close>, a prepared graph
  that already carries a flow.
\<close>

definition line_after_push_relabel :: graph where
  "line_after_push_relabel =
     [(''S'', [(''A'', \<lparr>capacity = 5, flow = Some 0\<rparr>)]),
      (''A'', [(''T'', \<lparr>capacity = 3, flow = Some 3\<rparr>), (''S'', \<lparr>capacity = 0, flow = Some (- 3)\<rparr>)]),
      (''T'', [(''A'', \<lparr>capacity = 0, flow = Some (- 3)\<rparr>)])]"

text \<open>
  What \<open>push_relabel_apply\<close> leaves of \<open>line\<close> when it is given a sink that is no node:
  the edge out of the source is full and the excess is stranded at \<open>A\<close>.
\<close>

definition line_stranded :: graph where
  "line_stranded =
     [(''S'', [(''A'', \<lparr>capacity = 5, flow = Some 3\<rparr>)]),
      (''A'', [(''T'', \<lparr>capacity = 3, flow = Some 0\<rparr>), (''S'', \<lparr>capacity = 0, flow = Some (- 3)\<rparr>)]),
      (''T'', [(''A'', \<lparr>capacity = 0, flow = Some 0\<rparr>)])]"

text \<open>A fork: \<open>S \<rightarrow> A\<close>, \<open>A \<rightarrow> B\<close> and \<open>A \<rightarrow> T\<close>, each of capacity 5; \<open>B\<close> is a dead end.\<close>

definition fork :: graph where
  "fork =
     [(''S'', [(''A'', \<lparr>capacity = 5, flow = None\<rparr>)]),
      (''A'', [(''B'', \<lparr>capacity = 5, flow = None\<rparr>), (''T'', \<lparr>capacity = 5, flow = None\<rparr>)]),
      (''B'', []),
      (''T'', [])]"

text \<open>
  Two routes that join: \<open>S \<rightarrow> A\<close> (2), \<open>S \<rightarrow> B\<close> (3), \<open>A \<rightarrow> C\<close> (2), \<open>B \<rightarrow> C\<close> (3) and
  \<open>C \<rightarrow> T\<close> (5); and the same graph with its maximum flow of 5, every edge full.
\<close>

definition joined :: graph where
  "joined =
     [(''S'', [(''A'', \<lparr>capacity = 2, flow = None\<rparr>), (''B'', \<lparr>capacity = 3, flow = None\<rparr>)]),
      (''A'', [(''C'', \<lparr>capacity = 2, flow = None\<rparr>)]),
      (''B'', [(''C'', \<lparr>capacity = 3, flow = None\<rparr>)]),
      (''C'', [(''T'', \<lparr>capacity = 5, flow = None\<rparr>)]),
      (''T'', [])]"

definition joined_solved :: graph where
  "joined_solved =
     [(''S'', [(''A'', \<lparr>capacity = 2, flow = Some 2\<rparr>), (''B'', \<lparr>capacity = 3, flow = Some 3\<rparr>)]),
      (''A'', [(''C'', \<lparr>capacity = 2, flow = Some 2\<rparr>), (''S'', \<lparr>capacity = 0, flow = Some (- 2)\<rparr>)]),
      (''B'', [(''C'', \<lparr>capacity = 3, flow = Some 3\<rparr>), (''S'', \<lparr>capacity = 0, flow = Some (- 3)\<rparr>)]),
      (''C'', [(''T'', \<lparr>capacity = 5, flow = Some 5\<rparr>), (''A'', \<lparr>capacity = 0, flow = Some (- 2)\<rparr>),
               (''B'', \<lparr>capacity = 0, flow = Some (- 3)\<rparr>)]),
      (''T'', [(''C'', \<lparr>capacity = 0, flow = Some (- 5)\<rparr>)])]"

section \<open>Properties of graphs\<close>

text \<open>\<open>lookup G u v\<close> is the attribute dictionary that \<open>G[u][v]\<close> finds, if any.\<close>

definition lookup :: "graph \<Rightarrow> node \<Rightarrow> node \<Rightarrow> attrs option" where
  "lookup G u v = (case map_of G u of None \<Rightarrow> None | Some a \<Rightarrow> map_of a v)"

text \<open>
  What every networkx graph satisfies: the keys of a dictionary are distinct, and the
  end point of an edge is a node.
\<close>

definition wf_graph :: "graph \<Rightarrow> bool" where
  "wf_graph G =
     (distinct (nodes G)
      \<and> list_all (\<lambda>ua. distinct (map fst (snd ua))
                      \<and> list_all (\<lambda>v. v \<in> set (nodes G)) (map fst (snd ua))) G)"

text \<open>
  What \<open>prepare_graph\<close> is to establish: every edge has a \<open>flow\<close> and a reverse edge.
\<close>

definition prepared :: "graph \<Rightarrow> bool" where
  "prepared G = (\<forall>u v a. lookup G u v = Some a \<longrightarrow> flow a \<noteq> None \<and> lookup G v u \<noteq> None)"

text \<open>The invariant of the loop of \<open>prepare_graph\<close>: an edge is still to come, or done.\<close>

definition prep_inv :: "graph \<Rightarrow> (node \<times> node) list \<Rightarrow> bool" where
  "prep_inv G es =
     ((\<forall>e \<in> set es. lookup G (fst e) (snd e) \<noteq> None)
      \<and> (\<forall>u v a. lookup G u v = Some a \<longrightarrow>
            (u, v) \<in> set es \<or> (flow a \<noteq> None \<and> lookup G v u \<noteq> None)))"

text \<open>
  A graph with edges in both directions between \<open>S\<close> and \<open>A\<close>, one of them with a flow
  already on it.
\<close>

definition two_way :: graph where
  "two_way =
     [(''S'', [(''A'', \<lparr>capacity = 5, flow = Some 2\<rparr>)]),
      (''A'', [(''S'', \<lparr>capacity = 1, flow = None\<rparr>), (''T'', \<lparr>capacity = 3, flow = None\<rparr>)]),
      (''T'', [])]"

text \<open>
  \<open>map_attrs g G\<close> changes the attributes of every edge \<open>(u, v)\<close> by \<open>g u v\<close>;
  \<open>erase_flows\<close> forgets the flows, so that two graphs have the same \<open>erase_flows\<close>
  exactly when they differ at most in the flow attributes of their edges.
\<close>

definition map_attrs :: "(node \<Rightarrow> node \<Rightarrow> attrs \<Rightarrow> attrs) \<Rightarrow> graph \<Rightarrow> graph" where
  "map_attrs g G = map (\<lambda>ua. (fst ua, map (\<lambda>ve. (fst ve, g (fst ua) (fst ve) (snd ve))) (snd ua))) G"

definition erase_flows :: "graph \<Rightarrow> graph" where
  "erase_flows G = map_attrs (\<lambda>u v e. e\<lparr>flow := None\<rparr>) G"

definition zero_flows :: "graph \<Rightarrow> graph" where
  "zero_flows G = map_attrs (\<lambda>u v e. e\<lparr>flow := Some 0\<rparr>) G"

text \<open>The graph \<open>two_way\<close> with other flows on its edges.\<close>

definition two_way_other :: graph where
  "two_way_other =
     [(''S'', [(''A'', \<lparr>capacity = 5, flow = None\<rparr>)]),
      (''A'', [(''S'', \<lparr>capacity = 1, flow = Some 7\<rparr>), (''T'', \<lparr>capacity = 3, flow = Some 1\<rparr>)]),
      (''T'', [])]"

text \<open>Every edge has a \<open>flow\<close> attribute.\<close>

definition flows_set :: "graph \<Rightarrow> bool" where
  "flows_set G = (\<forall>u v a. lookup G u v = Some a \<longrightarrow> flow a \<noteq> None)"

text \<open>
  The residual graph: an edge \<open>(u, v)\<close> with positive residual capacity. The cut of the
  specification: the edges of positive capacity from a node that the source reaches in
  the residual graph to a node that it does not reach.
\<close>

definition res_rel :: "graph \<Rightarrow> (node \<times> node) set" where
  "res_rel G = {(u, v). \<exists>r. residual G u v = Inr r \<and> 0 < r}"

definition crossing_edges :: "graph \<Rightarrow> node \<Rightarrow> cut_edge set" where
  "crossing_edges G s =
     {(u, v, c). (s, u) \<in> (res_rel G)\<^sup>* \<and> (s, v) \<notin> (res_rel G)\<^sup>*
                 \<and> (\<exists>a. lookup G u v = Some a \<and> capacity a = c \<and> 0 < c)}"

text \<open>
  The cut edges that \<open>cut_scan\<close> adds for a node \<open>u\<close> with the adjacency entries \<open>es\<close>.
\<close>

definition cut_of :: "node list \<Rightarrow> node \<Rightarrow> adjacency \<Rightarrow> cut_edge list" where
  "cut_of visited u es =
     map (\<lambda>ve. (u, fst ve, capacity (snd ve)))
       (filter (\<lambda>ve. fst ve \<notin> set visited \<and> 0 < capacity (snd ve)) es)"

text \<open>
  Skew symmetry: every edge has a reverse edge, and the two flows are each other's
  negation. \<open>no_flow\<close>: a graph as it is built, whose edges carry no flow attribute or
  the flow 0.
\<close>

definition skew :: "graph \<Rightarrow> bool" where
  "skew G = (\<forall>u v a. lookup G u v = Some a \<longrightarrow>
     (\<exists>b f. lookup G v u = Some b \<and> flow a = Some f \<and> flow b = Some (- f)))"

definition no_flow :: "graph \<Rightarrow> bool" where
  "no_flow G = (\<forall>u v a. lookup G u v = Some a \<longrightarrow> flow a = None \<or> flow a = Some 0)"

text \<open>The nodes that \<open>bfs_level\<close> has not reached yet: those with a negative level.\<close>

definition neg_levels :: "graph \<Rightarrow> (node \<rightharpoonup> int) \<Rightarrow> node set" where
  "neg_levels G level = {n \<in> set (nodes G). \<exists>l. level n = Some l \<and> l < 0}"

text \<open>
  A graph without self-loops, and what the main loop of \<open>push_relabel_apply\<close> keeps of
  the prepared graph. \<open>saturated G u\<close>: no edge out of \<open>u\<close> has residual capacity left.
\<close>

definition no_self_loops :: "graph \<Rightarrow> bool" where
  "no_self_loops G = (\<forall>u. lookup G u u = None)"

definition pr_graph_inv :: "graph \<Rightarrow> bool" where
  "pr_graph_inv G = (wf_graph G \<and> prepared G \<and> no_self_loops G)"

definition saturated :: "graph \<Rightarrow> node \<Rightarrow> bool" where
  "saturated G u = (\<forall>v r. residual G u v = Inr r \<longrightarrow> r \<le> 0)"

section \<open>The scenarios, evaluated\<close>

text \<open>
  C6. On the line network, built from capacities alone or with \<open>flow=0\<close> as \<open>app.py\<close>
  does, all three solvers return the maximum flow 3 and leave the same flow on the graph; on that graph \<open>extract_flow_paths\<close> returns the one path
  \<open>S, A, T\<close> with amount 3 and \<open>min_cut_report\<close> returns the one cut edge \<open>(A, T, 3)\<close>.
  The reachable set is \<open>{S, A}\<close>, and the cut is the same in both orders in which Python
  may iterate it.
\<close>

theorem line_network_scenario:
  "edmonds_karp_steps line ''S'' ''T''
     = Some (Inr (([([(''S'', ''A''), (''A'', ''T'')], Fin 3, Fin 3)], Fin 3), line_solved))
   \<and> dinic_apply line ''S'' ''T'' = Some (Inr (Fin 3, line_solved))
   \<and> push_relabel_apply line ''S'' ''T'' = Some (Inr (3, line_solved))
   \<and> edmonds_karp_steps line_app ''S'' ''T''
     = Some (Inr (([([(''S'', ''A''), (''A'', ''T'')], Fin 3, Fin 3)], Fin 3), line_solved))
   \<and> dinic_apply line_app ''S'' ''T'' = Some (Inr (Fin 3, line_solved))
   \<and> push_relabel_apply line_app ''S'' ''T'' = Some (Inr (3, line_solved))
   \<and> map_option (map_sum id fst) (extract_flow_paths line_solved ''S'' ''T'')
     = Some (Inr [([''S'', ''A'', ''T''], 3)])
   \<and> min_cut_report line_solved ''S'' = Inr [(''A'', ''T'', 3)]
   \<and> reach line_solved [] [''S''] = Inr [''S'', ''A'']
   \<and> cut_loop line_solved [''S'', ''A''] [''A'', ''S''] [] = Inr [(''A'', ''T'', 3)]"
  by code_simp

text \<open>
  C1, at the fork. The maximum flow is 5, and Edmonds-Karp and Dinic return 5.
  \<open>push_relabel_apply\<close> returns 0: \<open>A\<close> pushes all its excess to its first successor \<open>B\<close>,
  \<open>B\<close> pushes it back to \<open>A\<close>, and \<open>A\<close>, already behind the index of the worklist, is never
  looked at again.
\<close>

theorem solvers_disagree_at_fork:
  "map_option (map_sum id (\<lambda>r. snd (fst r))) (edmonds_karp_steps fork ''S'' ''T'') = Some (Inr (Fin 5))
   \<and> map_option (map_sum id fst) (dinic_apply fork ''S'' ''T'') = Some (Inr (Fin 5))
   \<and> map_option (map_sum id fst) (push_relabel_apply fork ''S'' ''T'') = Some (Inr 0)"
  by code_simp

text \<open>
  C2, where two routes join. Edmonds-Karp finds the maximum flow 5 and leaves
  \<open>joined_solved\<close>. \<open>extract_flow_paths\<close> returns one path of amount 2: following
  \<open>C \<rightarrow> T\<close> for the first path takes the whole flow 5 off that edge, not the 2 that the
  path carries, so the route through \<open>B\<close> finds no flow left and yields no path.
\<close>

theorem extract_flow_paths_loses_flow:
  "edmonds_karp_steps joined ''S'' ''T''
     = Some (Inr (([([(''S'', ''A''), (''A'', ''C''), (''C'', ''T'')], Fin 2, Fin 2),
                    ([(''S'', ''B''), (''B'', ''C''), (''C'', ''T'')], Fin 3, Fin 5)], Fin 5),
                  joined_solved))
   \<and> map_option (map_sum id fst) (extract_flow_paths joined_solved ''S'' ''T'')
     = Some (Inr [([''S'', ''A'', ''C'', ''T''], 2)])"
  by code_simp

text \<open>
  C3, at the fork. When the main loop of \<open>push_relabel_apply\<close> starts, the worklist is
  \<open>[A]\<close>, and \<open>A\<close> and its first successor \<open>B\<close> both have height 0. The first
  \<open>push(A, B)\<close> nevertheless moves 5 units, the minimum of the excess 5 and the residual
  capacity 5: \<open>push\<close> never reads a height.
\<close>

theorem push_ignores_height:
  "(case pr_init (prepare_graph fork) ''S'' ''T'' of
      Inl e \<Rightarrow> False
    | Inr st \<Rightarrow>
        pr_active st = [''A''] \<and> pr_i st = 0
        \<and> pr_height st ''A'' = Some 0 \<and> pr_height st ''B'' = Some 0
        \<and> pr_excess st ''A'' = Some 5
        \<and> succs (pr_graph st) ''A'' = Inr [''B'', ''T'', ''S'']
        \<and> residual (pr_graph st) ''A'' ''B'' = Inr 5
        \<and> get_flow (pr_graph st) ''A'' ''B'' = Inr 0
        \<and> (case push ''A'' ''B'' (pr_graph st, pr_excess st) of
              Inl e \<Rightarrow> False
            | Inr (pushed, G2, excess2) \<Rightarrow>
                pushed \<and> get_flow G2 ''A'' ''B'' = Inr 5 \<and> get_flow G2 ''B'' ''A'' = Inr (- 5)
                \<and> excess2 ''A'' = Some 0 \<and> excess2 ''B'' = Some 5))"
  by code_simp

text \<open>
  C4, with the source as the sink. \<open>dfs(s, float('inf'), s, ...)\<close> returns
  \<open>float('inf')\<close> at once, so \<open>pushed <= 0\<close> is never true and the inner \<open>while True\<close>
  loop of \<open>dinic_apply\<close> never ends.
\<close>

lemma dinic_dfs_at_sink: "dinic_dfs t level t pushed G it = Some (Inr (pushed, G, it))"
  by (subst dinic_dfs.simps) simp

lemma blocking_flow_returns_distinct:
  assumes "blocking_flow s t level G it max_flow = Some r"
  shows "s \<noteq> t"
  using assms
  apply (rule blocking_flow.raw_induct[rotated, where P = "\<lambda>s t level G it max_flow r. s \<noteq> t"])
  subgoal for f s t level G it max_flow r
    by (cases "s = t") (simp_all add: dinic_dfs_at_sink, blast)
  done

lemma blocking_flow_diverges: "blocking_flow s s level G it max_flow = None"
  using blocking_flow_returns_distinct[of s s level G it max_flow]
  by (cases "blocking_flow s s level G it max_flow") auto

lemma line_level_source:
  "map_option (map_sum id (\<lambda>level. level ''S'')) (bfs_level (prepare_graph line) ''S'')
     = Some (Inr (Some 0))"
  by code_simp

theorem dinic_apply_source_is_sink_diverges:
  "dinic_apply line ''S'' ''S'' = None
   \<and> map_option (map_sum id fst) (edmonds_karp_steps line ''S'' ''S'') = Some (Inr ([], Fin 0))
   \<and> map_option (map_sum id fst) (push_relabel_apply line ''S'' ''S'') = Some (Inr 0)"
proof -
  from line_level_source obtain level
    where l: "bfs_level (prepare_graph line) ''S'' = Some (Inr level)" and l0: "level ''S'' = Some 0"
    by (cases "bfs_level (prepare_graph line) ''S''";
        cases "the (bfs_level (prepare_graph line) ''S'')") auto
  have "dinic_apply line ''S'' ''S'' = None"
    unfolding dinic_apply_def
    by (subst dinic_loop.simps) (simp add: l l0 blocking_flow_diverges)
  moreover have "map_option (map_sum id fst) (edmonds_karp_steps line ''S'' ''S'') = Some (Inr ([], Fin 0))"
    by code_simp
  moreover have "map_option (map_sum id fst) (push_relabel_apply line ''S'' ''S'') = Some (Inr 0)"
    by code_simp
  ultimately show ?thesis by simp
qed

text \<open>
  C5, against the claim, on the line network. With a source that is no node,
  \<open>edmonds_karp_steps\<close> fails with the \<open>KeyError\<close> of \<open>G[s]\<close> inside \<open>bfs\<close>, and the graph
  it leaves has reverse edges and flow attributes that \<open>line\<close> has not. With a sink that
  is no node it does not fail at all; \<open>dinic_apply\<close> fails with a \<open>KeyError\<close> on the prepared
  graph, and \<open>push_relabel_apply\<close> with a \<open>NetworkXError\<close> after it has moved flow.
\<close>

theorem unknown_node_counterexample:
  "edmonds_karp_steps line ''X'' ''T'' = Some (Inl (KeyError ''X'', line_prepared))
   \<and> line_prepared \<noteq> line
   \<and> edmonds_karp_steps line ''S'' ''X'' = Some (Inr (([], Fin 0), line_prepared))
   \<and> dinic_apply line ''S'' ''X'' = Some (Inl (KeyError ''X'', line_prepared))
   \<and> push_relabel_apply line ''S'' ''X'' = Some (Inl (NetworkXError ''X'', line_stranded))
   \<and> line_stranded \<noteq> line_prepared"
  by code_simp

section \<open>\<open>prepare_graph\<close> is idempotent\<close>

lemma has_edge_lookup: "has_edge G u v = (lookup G u v \<noteq> None)"
  by (simp add: has_edge_def lookup_def split: option.splits)

lemma lookup_upd_attrs:
  "lookup (upd_attrs G u v f) x y =
     (if x = u \<and> y = v then map_option f (lookup G u v) else lookup G x y)"
  by (auto simp: lookup_def upd_attrs_def map_of_map_entry split: option.splits)

lemma map_of_add_node:
  "map_of (add_node G n) x = (if x = n \<and> map_of G n = None then Some [] else map_of G x)"
  by (auto simp: add_node_def has_node_def map_add_def split: option.splits)

lemma lookup_add_edge:
  "lookup (add_edge G u v a) x y = (if x = u \<and> y = v then Some a else lookup G x y)"
  by (auto simp: lookup_def add_edge_def map_of_map_entry map_of_add_node AList.update_conv'
      split: option.splits)

lemma lookup_setdefault_flow:
  "lookup (setdefault_flow G u v) x y =
     (if x = u \<and> y = v then map_option default_flow (lookup G u v) else lookup G x y)"
  by (simp add: setdefault_flow_def lookup_upd_attrs)

lemma prepare_edge_cases:
  "prepare_edge G (u, v) =
     (if lookup (setdefault_flow G u v) v u = None
      then add_edge (setdefault_flow G u v) v u \<lparr>capacity = 0, flow = Some 0\<rparr>
      else setdefault_flow (setdefault_flow G u v) v u)"
  by (simp add: prepare_edge_def Let_def has_edge_lookup)

lemma flow_default_flow: "\<exists>f. flow (default_flow a) = Some f"
  by (cases "flow a") (simp_all add: default_flow_def)

lemma lookup_setdefault_flow_other:
  "x \<noteq> u \<or> y \<noteq> v \<Longrightarrow> lookup (setdefault_flow G u v) x y = lookup G x y"
  by (auto simp add: lookup_setdefault_flow)

lemma lookup_setdefault_flow_same:
  "lookup (setdefault_flow G u v) u v = map_option default_flow (lookup G u v)"
  by (simp add: lookup_setdefault_flow)

lemma lookup_setdefault_flow_mono:
  "lookup G x y \<noteq> None \<Longrightarrow> lookup (setdefault_flow G u v) x y \<noteq> None"
  by (auto simp add: lookup_setdefault_flow)

lemma lookup_add_edge_other:
  "x \<noteq> u \<or> y \<noteq> v \<Longrightarrow> lookup (add_edge G u v a) x y = lookup G x y"
  by (auto simp add: lookup_add_edge)

lemma lookup_add_edge_same: "lookup (add_edge G u v a) u v = Some a"
  by (simp add: lookup_add_edge)

lemma prepare_edge_new:
  "lookup (setdefault_flow G u v) v u = None \<Longrightarrow>
   prepare_edge G (u, v) = add_edge (setdefault_flow G u v) v u \<lparr>capacity = 0, flow = Some 0\<rparr>"
  by (simp add: prepare_edge_cases)

lemma prepare_edge_old:
  "lookup (setdefault_flow G u v) v u \<noteq> None \<Longrightarrow>
   prepare_edge G (u, v) = setdefault_flow (setdefault_flow G u v) v u"
  by (auto simp add: prepare_edge_cases)

lemma lookup_prepare_edge_other:
  assumes "x \<noteq> u \<or> y \<noteq> v" "x \<noteq> v \<or> y \<noteq> u"
  shows "lookup (prepare_edge G (u, v)) x y = lookup G x y"
proof (cases "lookup (setdefault_flow G u v) v u = None")
  case True
  show ?thesis
    unfolding prepare_edge_new[OF True] lookup_add_edge_other[OF assms(2)]
    by (rule lookup_setdefault_flow_other[OF assms(1)])
next
  case False
  show ?thesis
    unfolding prepare_edge_old[OF False] lookup_setdefault_flow_other[OF assms(2)]
    by (rule lookup_setdefault_flow_other[OF assms(1)])
qed

lemma lookup_prepare_edge_mono:
  assumes "lookup G x y \<noteq> None"
  shows "lookup (prepare_edge G e) x y \<noteq> None"
proof -
  obtain u v where e: "e = (u, v)" by (cases e)
  have 1: "lookup (setdefault_flow G u v) x y \<noteq> None"
    using assms by (rule lookup_setdefault_flow_mono)
  show ?thesis
  proof (cases "lookup (setdefault_flow G u v) v u = None")
    case True
    show ?thesis unfolding e prepare_edge_new[OF True]
      using 1 by (cases "x = v \<and> y = u") (auto simp: lookup_add_edge)
  next
    case False
    show ?thesis unfolding e prepare_edge_old[OF False]
      using 1 by (rule lookup_setdefault_flow_mono)
  qed
qed

lemma lookup_prepare_edge_rev:
  "\<exists>b f. lookup (prepare_edge G (u, v)) v u = Some b \<and> flow b = Some f"
proof (cases "lookup (setdefault_flow G u v) v u = None")
  case True
  show ?thesis unfolding prepare_edge_new[OF True] by (simp add: lookup_add_edge_same)
next
  case False
  then obtain b where b: "lookup (setdefault_flow G u v) v u = Some b" by auto
  show ?thesis unfolding prepare_edge_old[OF False] lookup_setdefault_flow_same b
    using flow_default_flow by simp
qed

lemma lookup_prepare_edge_fwd:
  assumes "lookup (prepare_edge G (u, v)) u v = Some a"
  shows "flow a \<noteq> None"
proof (cases "u = v")
  case True
  with lookup_prepare_edge_rev[of G u v] assms(1) show ?thesis by auto
next
  case False
  then have ne: "u \<noteq> v \<or> v \<noteq> u" by simp
  have s: "\<And>b. lookup (setdefault_flow G u v) u v = Some b \<Longrightarrow> flow b \<noteq> None"
    unfolding lookup_setdefault_flow_same using flow_default_flow by (metis map_option_eq_Some option.distinct(1))
  show ?thesis
  proof (cases "lookup (setdefault_flow G u v) v u = None")
    case True
    from assms(1) have "lookup (setdefault_flow G u v) u v = Some a"
      unfolding prepare_edge_new[OF True] lookup_add_edge_other[OF ne] .
    then show ?thesis by (rule s)
  next
    case F: False
    from assms(1) have "lookup (setdefault_flow G u v) u v = Some a"
      unfolding prepare_edge_old[OF F] lookup_setdefault_flow_other[OF ne] .
    then show ?thesis by (rule s)
  qed
qed


lemma map_entry_id:
  "(\<And>x. map_of xs k = Some x \<Longrightarrow> f x = x) \<Longrightarrow> AList.map_entry k f xs = xs"
  by (induction xs) auto

lemma upd_attrs_id:
  "(\<And>a. lookup G u v = Some a \<Longrightarrow> f a = a) \<Longrightarrow> upd_attrs G u v f = G"
  unfolding upd_attrs_def
  by (rule map_entry_id, rule map_entry_id) (simp add: lookup_def)

lemma default_flow_id: "flow a \<noteq> None \<Longrightarrow> default_flow a = a"
  by (cases "flow a") (simp_all add: default_flow_def)

lemma prepare_edge_id:
  assumes "prepared G" "lookup G u v \<noteq> None"
  shows "prepare_edge G (u, v) = G"
proof -
  have 1: "setdefault_flow G x y = G" for x y
    unfolding setdefault_flow_def using assms(1)
    by (intro upd_attrs_id default_flow_id) (auto simp: prepared_def)
  from assms have "lookup G v u \<noteq> None" by (auto simp: prepared_def)
  then have "lookup (setdefault_flow G u v) v u \<noteq> None" by (simp add: 1)
  from prepare_edge_old[OF this] show ?thesis by (simp add: 1)
qed

lemma foldl_prepare_edge_id:
  "prepared G \<Longrightarrow> (\<And>e. e \<in> set es \<Longrightarrow> lookup G (fst e) (snd e) \<noteq> None) \<Longrightarrow>
   foldl prepare_edge G es = G"
proof (induction es)
  case Nil
  then show ?case by simp
next
  case (Cons e es)
  obtain u v where e: "e = (u, v)" by (cases e)
  from Cons.prems(2)[of e] have "lookup G u v \<noteq> None" by (simp add: e)
  with Cons.prems(1) have "prepare_edge G e = G" unfolding e by (rule prepare_edge_id)
  with Cons show ?case by simp
qed

lemma edges_lookup:
  assumes "distinct (nodes G)" "(u, v) \<in> set (edges G)"
  shows "lookup G u v \<noteq> None"
proof -
  from assms(2) obtain a where a: "(u, a) \<in> set G" and v: "v \<in> fst ` set a"
    by (force simp: edges_def)
  from assms(1) a have "map_of G u = Some a" by (simp add: nodes_def)
  moreover from v have "map_of a v \<noteq> None" by (simp add: map_of_eq_None_iff)
  ultimately show ?thesis by (simp add: lookup_def)
qed

lemma lookup_edges: "lookup G u v = Some a \<Longrightarrow> (u, v) \<in> set (edges G)"
  by (fastforce simp: lookup_def edges_def split: option.splits dest!: map_of_SomeD)

lemma prep_inv_step:
  assumes "prep_inv G (e # es)"
  shows "prep_inv (prepare_edge G e) es"
proof -
  obtain u v where e: "e = (u, v)" by (cases e)
  from assms have ex: "lookup G u v \<noteq> None" by (simp add: prep_inv_def e)
  from assms have old: "\<And>x y a. lookup G x y = Some a \<Longrightarrow> x \<noteq> u \<or> y \<noteq> v \<Longrightarrow>
      (x, y) \<in> set es \<or> (flow a \<noteq> None \<and> lookup G y x \<noteq> None)"
    unfolding prep_inv_def e by fastforce
  have rev: "lookup (prepare_edge G e) v u \<noteq> None"
    using lookup_prepare_edge_rev[of G u v] unfolding e by auto
  have fwd: "lookup (prepare_edge G e) u v \<noteq> None"
    using ex by (rule lookup_prepare_edge_mono)
  show ?thesis
    unfolding prep_inv_def
  proof (intro conjI ballI allI impI)
    fix e' assume "e' \<in> set es"
    with assms have "lookup G (fst e') (snd e') \<noteq> None" by (simp add: prep_inv_def)
    then show "lookup (prepare_edge G e) (fst e') (snd e') \<noteq> None"
      by (rule lookup_prepare_edge_mono)
  next
    fix x y a assume l: "lookup (prepare_edge G e) x y = Some a"
    consider (rev) "x = v" "y = u" | (fwd) "x = u" "y = v"
      | (other) "x \<noteq> u \<or> y \<noteq> v" "x \<noteq> v \<or> y \<noteq> u" by blast
    then show "(x, y) \<in> set es \<or> (flow a \<noteq> None \<and> lookup (prepare_edge G e) y x \<noteq> None)"
    proof cases
      case rev
      with l lookup_prepare_edge_rev[of G u v] have "flow a \<noteq> None" unfolding e by auto
      with rev fwd show ?thesis by simp
    next
      case fwd
      with l have "flow a \<noteq> None" unfolding e by (auto dest: lookup_prepare_edge_fwd)
      with fwd rev show ?thesis by simp
    next
      case other
      from l have l': "lookup G x y = Some a"
        unfolding e lookup_prepare_edge_other[OF other] .
      from old[OF l' other(1)] show ?thesis
      proof
        assume "(x, y) \<in> set es" then show ?thesis by simp
      next
        assume a: "flow a \<noteq> None \<and> lookup G y x \<noteq> None"
        then have "lookup (prepare_edge G e) y x \<noteq> None" by (intro lookup_prepare_edge_mono) simp
        with a show ?thesis by simp
      qed
    qed
  qed
qed

lemma prep_inv_foldl: "prep_inv G es \<Longrightarrow> prep_inv (foldl prepare_edge G es) []"
  by (induction es arbitrary: G) (auto dest: prep_inv_step)

lemma prepared_prepare_graph:
  assumes "distinct (nodes G)"
  shows "prepared (prepare_graph G)"
proof -
  have "prep_inv G (edges G)"
    unfolding prep_inv_def using assms by (auto simp: edges_lookup lookup_edges)
  from prep_inv_foldl[OF this] show ?thesis
    by (simp add: prep_inv_def prepared_def prepare_graph_def)
qed

lemma nodes_upd_attrs: "nodes (upd_attrs G u v f) = nodes G"
  by (induction G) (auto simp: nodes_def upd_attrs_def)

lemma nodes_add_node: "nodes (add_node G n) = (if n \<in> set (nodes G) then nodes G else nodes G @ [n])"
  by (auto simp: add_node_def has_node_def nodes_def map_of_eq_None_iff)

lemma nodes_map_entry: "map fst (AList.map_entry k f xs) = map fst xs"
  by (induction xs) auto

lemma nodes_add_edge: "nodes (add_edge G u v a) = nodes (add_node (add_node G u) v)"
  unfolding add_edge_def nodes_def by (rule nodes_map_entry)

lemma distinct_nodes_add_edge: "distinct (nodes G) \<Longrightarrow> distinct (nodes (add_edge G u v a))"
  by (simp add: nodes_add_edge nodes_add_node)

lemma distinct_nodes_prepare_edge:
  "distinct (nodes G) \<Longrightarrow> distinct (nodes (prepare_edge G e))"
  by (cases e)
     (simp add: prepare_edge_def Let_def setdefault_flow_def nodes_upd_attrs distinct_nodes_add_edge)

lemma distinct_nodes_prepare_graph: "distinct (nodes G) \<Longrightarrow> distinct (nodes (prepare_graph G))"
proof -
  have "distinct (nodes H) \<Longrightarrow> distinct (nodes (foldl prepare_edge H es))" for H es
    by (induction es arbitrary: H) (auto simp: distinct_nodes_prepare_edge)
  then show "distinct (nodes G) \<Longrightarrow> distinct (nodes (prepare_graph G))"
    by (simp add: prepare_graph_def)
qed

lemma prepared_fixpoint:
  assumes "prepared G" "distinct (nodes G)"
  shows "prepare_graph G = G"
  unfolding prepare_graph_def
  using assms by (intro foldl_prepare_edge_id) (auto simp: edges_lookup)

text \<open>
  C9. Preparing a prepared graph changes nothing: the second call of \<open>prepare_graph\<close>
  returns the graph of the first call, with the same nodes and edges in the same order and
  the same attributes, so it adds no reverse edge and resets no flow.
\<close>

theorem prepare_graph_idempotent:
  assumes "wf_graph G"
  shows "prepare_graph (prepare_graph G) = prepare_graph G"
proof -
  from assms have d: "distinct (nodes G)" by (simp add: wf_graph_def)
  show ?thesis
    by (rule prepared_fixpoint[OF prepared_prepare_graph[OF d] distinct_nodes_prepare_graph[OF d]])
qed

theorem prepare_graph_idempotent_witness:
  "wf_graph two_way
   \<and> prepare_graph (prepare_graph two_way) = prepare_graph two_way
   \<and> get_flow (prepare_graph two_way) ''S'' ''A'' = Inr 2"
proof -
  have h: "wf_graph two_way" by code_simp
  have f: "get_flow (prepare_graph two_way) ''S'' ''A'' = Inr 2" by code_simp
  from prepare_graph_idempotent[OF h] h f show ?thesis by simp
qed

section \<open>\<open>prepare_graph\<close> keeps a graph well formed\<close>

lemma map_of_nodes: "distinct (nodes G) \<Longrightarrow> (u, a) \<in> set G \<longleftrightarrow> map_of G u = Some a"
  by (auto simp: nodes_def dest: map_of_SomeD)

lemma wf_graph_set:
  "wf_graph G \<longleftrightarrow>
     distinct (nodes G)
     \<and> (\<forall>u a. (u, a) \<in> set G \<longrightarrow> distinct (map fst a) \<and> fst ` set a \<subseteq> set (nodes G))"
  unfolding wf_graph_def list_all_iff by (simp add: image_subset_iff) fastforce

lemma wf_graph_iff:
  "wf_graph G \<longleftrightarrow>
     distinct (nodes G)
     \<and> (\<forall>u a. map_of G u = Some a \<longrightarrow> distinct (map fst a) \<and> fst ` set a \<subseteq> set (nodes G))"
proof (cases "distinct (nodes G)")
  case True
  show ?thesis
    unfolding wf_graph_set map_of_nodes[OF True] by simp
next
  case False
  then show ?thesis by (simp add: wf_graph_def)
qed

lemma has_node_nodes: "has_node G u \<longleftrightarrow> u \<in> set (nodes G)"
  by (simp add: has_node_def nodes_def map_of_eq_None_iff)

lemma wf_map_entry:
  assumes "wf_graph G"
    and "\<And>a. map_of G k = Some a \<Longrightarrow> distinct (map fst (f a)) \<and> fst ` set (f a) \<subseteq> set (nodes G)"
  shows "wf_graph (AList.map_entry k f G)"
proof -
  have n: "nodes (AList.map_entry k f G) = nodes G" by (simp add: nodes_def nodes_map_entry)
  show ?thesis
    unfolding wf_graph_iff n map_of_map_entry
    using assms by (auto simp: wf_graph_iff split: option.splits if_splits)
qed

lemma wf_upd_attrs: "wf_graph G \<Longrightarrow> wf_graph (upd_attrs G u v f)"
  unfolding upd_attrs_def
  by (rule wf_map_entry) (auto simp: nodes_map_entry dom_map_entry wf_graph_iff)

lemma add_node_id: "n \<in> set (nodes G) \<Longrightarrow> add_node G n = G"
  by (simp add: add_node_def has_node_nodes)

lemma wf_add_edge:
  assumes "wf_graph G" "u \<in> set (nodes G)" "v \<in> set (nodes G)"
  shows "wf_graph (add_edge G u v a)"
proof -
  have "add_edge G u v a = AList.map_entry u (AList.update v a) G"
    using assms by (simp add: add_edge_def add_node_id)
  moreover have "wf_graph (AList.map_entry u (AList.update v a) G)"
    using assms
    by (intro wf_map_entry) (auto simp: wf_graph_iff AList.distinct_update AList.dom_update)
  ultimately show ?thesis by simp
qed

lemma nodes_add_edge_id:
  "u \<in> set (nodes G) \<Longrightarrow> v \<in> set (nodes G) \<Longrightarrow> nodes (add_edge G u v a) = nodes G"
  by (simp add: nodes_add_edge add_node_id)

lemma wf_prepare_edge:
  assumes "wf_graph G" "u \<in> set (nodes G)" "v \<in> set (nodes G)"
  shows "wf_graph (prepare_edge G (u, v)) \<and> nodes (prepare_edge G (u, v)) = nodes G"
  using assms
  by (simp add: prepare_edge_def Let_def setdefault_flow_def wf_upd_attrs wf_add_edge
      nodes_upd_attrs nodes_add_edge_id)

lemma edges_nodes:
  assumes "wf_graph G" "(u, v) \<in> set (edges G)"
  shows "u \<in> set (nodes G) \<and> v \<in> set (nodes G)"
proof -
  from assms(2) obtain a where a: "(u, a) \<in> set G" and v: "v \<in> fst ` set a"
    by (force simp: edges_def)
  from assms(1) have d: "distinct (nodes G)" by (simp add: wf_graph_iff)
  from a have "u \<in> set (nodes G)" by (force simp: nodes_def)
  moreover from a d have "map_of G u = Some a" by (simp add: map_of_nodes)
  with assms(1) v have "v \<in> set (nodes G)" by (auto simp: wf_graph_iff)
  ultimately show ?thesis by simp
qed

lemma wf_foldl_prepare_edge:
  assumes "wf_graph G" "\<And>e. e \<in> set es \<Longrightarrow> fst e \<in> set (nodes G) \<and> snd e \<in> set (nodes G)"
  shows "wf_graph (foldl prepare_edge G es) \<and> nodes (foldl prepare_edge G es) = nodes G"
  using assms
proof (induction es arbitrary: G)
  case Nil
  then show ?case by simp
next
  case (Cons e es)
  obtain u v where e: "e = (u, v)" by (cases e)
  from Cons.prems(2)[of e] have uv: "u \<in> set (nodes G)" "v \<in> set (nodes G)" by (simp_all add: e)
  from wf_prepare_edge[OF Cons.prems(1) uv]
  have w: "wf_graph (prepare_edge G e)" and n: "nodes (prepare_edge G e) = nodes G"
    by (simp_all add: e)
  have "wf_graph (foldl prepare_edge (prepare_edge G e) es)
        \<and> nodes (foldl prepare_edge (prepare_edge G e) es) = nodes (prepare_edge G e)"
    using w Cons.prems(2) by (intro Cons.IH) (simp_all add: n)
  then show ?case by (simp add: n)
qed

lemma wf_prepare_graph:
  assumes "wf_graph G"
  shows "wf_graph (prepare_graph G)" and "nodes (prepare_graph G) = nodes G"
  using wf_foldl_prepare_edge[OF assms, of "edges G"] edges_nodes[OF assms]
  by (auto simp: prepare_graph_def)

section \<open>The flows after \<open>reset_flows\<close>\<close>

lemma map_entry_as_map:
  "distinct (map fst xs) \<Longrightarrow>
   AList.map_entry k f xs = map (\<lambda>p. (fst p, if fst p = k then f (snd p) else snd p)) xs"
proof (induction xs)
  case Nil
  then show ?case by simp
next
  case (Cons p ps)
  show ?case
  proof (cases "fst p = k")
    case True
    with Cons.prems have "k \<notin> fst ` set ps" by auto
    then have "map (\<lambda>p. (fst p, if fst p = k then f (snd p) else snd p)) ps = ps"
      by (intro map_idI) auto
    with True show ?thesis by simp
  next
    case False
    with Cons show ?thesis by simp
  qed
qed

lemma nodes_map_attrs: "nodes (map_attrs g G) = nodes G"
  by (simp add: nodes_def map_attrs_def comp_def)

lemma edges_map_attrs: "edges (map_attrs g G) = edges G"
  by (simp add: edges_def map_attrs_def comp_def case_prod_beta cong: map_cong)

lemma map_attrs_map_attrs:
  "map_attrs g2 (map_attrs g1 G) = map_attrs (\<lambda>x y e. g2 x y (g1 x y e)) G"
  by (simp add: map_attrs_def comp_def)

lemma map_attrs_cong:
  "(\<And>u a v e. (u, a) \<in> set G \<Longrightarrow> (v, e) \<in> set a \<Longrightarrow> g u v e = h u v e) \<Longrightarrow>
   map_attrs g G = map_attrs h G"
  unfolding map_attrs_def
  by (intro map_cong refl) (auto intro!: map_cong)

lemma wf_map_attrs: "wf_graph G \<Longrightarrow> wf_graph (map_attrs g G)"
  unfolding wf_graph_set nodes_map_attrs
  by (auto simp: map_attrs_def comp_def) fastforce

lemma upd_attrs_as_map:
  assumes "wf_graph G"
  shows "upd_attrs G u v f = map_attrs (\<lambda>x y e. if x = u \<and> y = v then f e else e) G"
proof -
  from assms have d: "distinct (map fst G)" by (simp add: wf_graph_set nodes_def)
  have "upd_attrs G u v f
        = map (\<lambda>p. (fst p, if fst p = u then AList.map_entry v f (snd p) else snd p)) G"
    unfolding upd_attrs_def by (rule map_entry_as_map[OF d])
  also have "\<dots> = map_attrs (\<lambda>x y e. if x = u \<and> y = v then f e else e) G"
    unfolding map_attrs_def
  proof (intro map_cong refl)
    fix p assume p: "p \<in> set G"
    then have "(fst p, snd p) \<in> set G" by simp
    with assms have di: "distinct (map fst (snd p))" unfolding wf_graph_set by blast
    show "(fst p, if fst p = u then AList.map_entry v f (snd p) else snd p)
          = (fst p, map (\<lambda>ve. (fst ve, if fst p = u \<and> fst ve = v then f (snd ve) else snd ve)) (snd p))"
    proof (cases "fst p = u")
      case True
      then show ?thesis by (simp add: map_entry_as_map[OF di])
    next
      case False
      then show ?thesis by (simp add: map_idI)
    qed
  qed
  finally show ?thesis .
qed

lemma foldl_upd_attrs_as_map:
  assumes "wf_graph G" "\<And>e. z (z e) = z e"
  shows "foldl (\<lambda>H e. case e of (u, v) \<Rightarrow> upd_attrs H u v z) G es
         = map_attrs (\<lambda>x y e. if (x, y) \<in> set es then z e else e) G"
  using assms(1)
proof (induction es arbitrary: G)
  case Nil
  then show ?case by (simp add: map_attrs_def)
next
  case (Cons e es)
  obtain u v where e: "e = (u, v)" by (cases e)
  let ?G1 = "map_attrs (\<lambda>x y e. if x = u \<and> y = v then z e else e) G"
  have 1: "upd_attrs G u v z = ?G1" by (rule upd_attrs_as_map[OF Cons.prems])
  have w: "wf_graph ?G1" by (rule wf_map_attrs[OF Cons.prems])
  show ?case
    unfolding e foldl_Cons prod.case 1 Cons.IH[OF w] map_attrs_map_attrs
    by (rule map_attrs_cong) (auto simp: assms(2))
qed

lemma reset_flows_zero_flows:
  assumes "wf_graph G"
  shows "reset_flows G = zero_flows G"
  unfolding reset_flows_def zero_flows_def foldl_upd_attrs_as_map[OF assms, of "\<lambda>a. a\<lparr>flow := Some 0\<rparr>", simplified]
  by (rule map_attrs_cong) (force simp: edges_def)

lemma zero_flows_erase: "zero_flows (erase_flows G) = zero_flows G"
  by (simp add: zero_flows_def erase_flows_def map_attrs_map_attrs)

section \<open>Edmonds-Karp does not depend on the flows it is given\<close>

lemma map_of_map_attrs:
  "map_of (map_attrs g G) u
   = map_option (\<lambda>a. map (\<lambda>ve. (fst ve, g u (fst ve) (snd ve))) a) (map_of G u)"
  by (induction G) (auto simp: map_attrs_def)

lemma map_of_map_snd: "map_of (map (\<lambda>ve. (fst ve, h (fst ve) (snd ve))) a) v = map_option (h v) (map_of a v)"
  by (induction a) auto

lemma lookup_map_attrs: "lookup (map_attrs g G) u v = map_option (g u v) (lookup G u v)"
  by (cases "map_of G u") (simp_all add: lookup_def map_of_map_attrs map_of_map_snd)

lemma has_edge_map_attrs: "has_edge (map_attrs g G) u v = has_edge G u v"
  by (simp add: has_edge_lookup lookup_map_attrs)

lemma has_node_map_attrs: "has_node (map_attrs g G) u = has_node G u"
  by (simp add: has_node_nodes nodes_map_attrs)

lemma map_attrs_add_node: "map_attrs g (add_node G n) = add_node (map_attrs g G) n"
  by (simp add: add_node_def has_node_map_attrs) (simp add: map_attrs_def)

lemma map_update:
  "map (\<lambda>ve. (fst ve, h (fst ve) (snd ve))) (AList.update v a xs)
   = AList.update v (h v a) (map (\<lambda>ve. (fst ve, h (fst ve) (snd ve))) xs)"
  by (induction xs) auto

lemma map_attrs_map_entry_update:
  "map_attrs g (AList.map_entry u (AList.update v a) G)
   = AList.map_entry u (AList.update v (g u v a)) (map_attrs g G)"
  by (induction G) (auto simp: map_attrs_def map_update)

lemma map_attrs_add_edge: "map_attrs g (add_edge G u v a) = add_edge (map_attrs g G) u v (g u v a)"
  by (simp add: add_edge_def map_attrs_map_entry_update map_attrs_add_node)

lemma erase_add_edge:
  "erase_flows (add_edge G u v a) = add_edge (erase_flows G) u v (a\<lparr>flow := None\<rparr>)"
  by (simp add: erase_flows_def map_attrs_add_edge)

lemma erase_upd_attrs:
  assumes "wf_graph G" "\<And>e. (f e)\<lparr>flow := None\<rparr> = e\<lparr>flow := None\<rparr>"
  shows "erase_flows (upd_attrs G u v f) = erase_flows G"
  unfolding erase_flows_def upd_attrs_as_map[OF assms(1)] map_attrs_map_attrs
  by (rule map_attrs_cong) (simp add: assms(2))

lemma erase_default_flow: "(default_flow e)\<lparr>flow := None\<rparr> = e\<lparr>flow := None\<rparr>"
  by (cases "flow e") (simp_all add: default_flow_def)

lemma erase_setdefault_flow: "wf_graph G \<Longrightarrow> erase_flows (setdefault_flow G u v) = erase_flows G"
  unfolding setdefault_flow_def by (rule erase_upd_attrs) (simp_all add: erase_default_flow)

lemma has_edge_erase: "has_edge (erase_flows G) u v = has_edge G u v"
  by (simp add: erase_flows_def has_edge_map_attrs)

lemma erase_prepare_edge:
  assumes "wf_graph G" "wf_graph H" "erase_flows G = erase_flows H"
  shows "erase_flows (prepare_edge G e) = erase_flows (prepare_edge H e)"
proof -
  obtain u v where e: "e = (u, v)" by (cases e)
  let ?G1 = "setdefault_flow G u v" and ?H1 = "setdefault_flow H u v"
  have w: "wf_graph ?G1" "wf_graph ?H1"
    using assms by (simp_all add: setdefault_flow_def wf_upd_attrs)
  have 1: "erase_flows ?G1 = erase_flows ?H1"
    using assms by (simp add: erase_setdefault_flow)
  have 2: "has_edge ?G1 v u = has_edge ?H1 v u"
    using 1 by (metis has_edge_erase)
  show ?thesis
  proof (cases "has_edge ?G1 v u")
    case True
    with 2 show ?thesis unfolding e
      by (simp add: prepare_edge_def Let_def erase_setdefault_flow w 1)
  next
    case False
    with 2 show ?thesis unfolding e
      by (simp add: prepare_edge_def Let_def erase_add_edge 1)
  qed
qed

lemma nodes_erase: "nodes (erase_flows G) = nodes G"
  by (simp add: erase_flows_def nodes_map_attrs)

lemma edges_erase: "edges (erase_flows G) = edges G"
  by (simp add: erase_flows_def edges_map_attrs)

lemma erase_foldl_prepare_edge:
  assumes "wf_graph G" "wf_graph H" "erase_flows G = erase_flows H"
    "\<And>e. e \<in> set es \<Longrightarrow> fst e \<in> set (nodes G) \<and> snd e \<in> set (nodes G)"
  shows "erase_flows (foldl prepare_edge G es) = erase_flows (foldl prepare_edge H es)"
  using assms
proof (induction es arbitrary: G H)
  case Nil
  then show ?case by simp
next
  case (Cons e es)
  obtain u v where e: "e = (u, v)" by (cases e)
  from Cons.prems(3) have n: "nodes G = nodes H" by (metis nodes_erase)
  from Cons.prems(4)[of e] have uv: "u \<in> set (nodes G)" "v \<in> set (nodes G)" by (simp_all add: e)
  from wf_prepare_edge[OF Cons.prems(1) uv] wf_prepare_edge[OF Cons.prems(2) uv[unfolded n]]
  have w: "wf_graph (prepare_edge G e)" "wf_graph (prepare_edge H e)"
    and n1: "nodes (prepare_edge G e) = nodes G"
    by (simp_all add: e)
  have "erase_flows (foldl prepare_edge (prepare_edge G e) es)
        = erase_flows (foldl prepare_edge (prepare_edge H e) es)"
    using w erase_prepare_edge[OF Cons.prems(1,2,3)] Cons.prems(4)
    by (intro Cons.IH) (simp_all add: n1)
  then show ?case by simp
qed

lemma erase_prepare_graph:
  assumes "wf_graph G" "wf_graph H" "erase_flows G = erase_flows H"
  shows "erase_flows (prepare_graph G) = erase_flows (prepare_graph H)"
proof -
  from assms(3) have "edges G = edges H" by (metis edges_erase)
  then show ?thesis
    unfolding prepare_graph_def
    using erase_foldl_prepare_edge[OF assms, of "edges G"] edges_nodes[OF assms(1)] by auto
qed

lemma reset_prepare_erase:
  assumes "wf_graph G" "wf_graph H" "erase_flows G = erase_flows H"
  shows "reset_flows (prepare_graph G) = reset_flows (prepare_graph H)"
proof -
  have "reset_flows (prepare_graph G) = zero_flows (erase_flows (prepare_graph G))"
    by (simp add: reset_flows_zero_flows wf_prepare_graph assms zero_flows_erase)
  also have "\<dots> = zero_flows (erase_flows (prepare_graph H))"
    by (simp add: erase_prepare_graph[OF assms])
  also have "\<dots> = reset_flows (prepare_graph H)"
    by (simp add: reset_flows_zero_flows wf_prepare_graph assms zero_flows_erase)
  finally show ?thesis .
qed

lemma lookup_zero_flows:
  "lookup (zero_flows G) u v = map_option (\<lambda>e. e\<lparr>flow := Some 0\<rparr>) (lookup G u v)"
  by (simp add: zero_flows_def lookup_map_attrs)

text \<open>
  C10. \<open>edmonds_karp_steps\<close> runs its loop on \<open>reset_flows (prepare_graph G)\<close>, in which
  every edge has flow 0. Two graphs that differ at most in the flow attributes of their
  edges therefore give the same result: the same steps, the same maximum flow and the same
  final graph (and the same failure or divergence, where there is one).
\<close>

theorem edmonds_karp_ignores_old_flows:
  assumes "wf_graph G" "wf_graph H" "erase_flows G = erase_flows H"
  shows "edmonds_karp_steps G s t = edmonds_karp_steps H s t
         \<and> (\<forall>u v a. lookup (reset_flows (prepare_graph G)) u v = Some a \<longrightarrow> flow a = Some 0)"
proof -
  have "reset_flows (prepare_graph G) = zero_flows (prepare_graph G)"
    by (simp add: reset_flows_zero_flows wf_prepare_graph assms)
  then have "\<forall>u v a. lookup (reset_flows (prepare_graph G)) u v = Some a \<longrightarrow> flow a = Some 0"
    by (auto simp: lookup_zero_flows)
  then show ?thesis
    by (simp add: edmonds_karp_steps_def reset_prepare_erase[OF assms])
qed

theorem edmonds_karp_ignores_old_flows_witness:
  "wf_graph two_way \<and> wf_graph two_way_other
   \<and> erase_flows two_way = erase_flows two_way_other
   \<and> two_way \<noteq> two_way_other
   \<and> edmonds_karp_steps two_way ''S'' ''T'' = edmonds_karp_steps two_way_other ''S'' ''T''"
proof -
  have h1: "wf_graph two_way" by code_simp
  have h2: "wf_graph two_way_other" by code_simp
  have h3: "erase_flows two_way = erase_flows two_way_other" by code_simp
  have h4: "two_way \<noteq> two_way_other" by code_simp
  from edmonds_karp_ignores_old_flows[OF h1 h2 h3, of "''S''" "''T''"] h1 h2 h3 h4
  show ?thesis by simp
qed

section \<open>A source or a sink that is no node\<close>

lemma succs_Inr: "map_of G u = Some a \<Longrightarrow> succs G u = Inr (map fst a)"
  by (simp add: succs_def adj_def)

lemma succs_Inl: "map_of G u = None \<Longrightarrow> succs G u = Inl (KeyError u)"
  by (simp add: succs_def adj_def)

lemma map_of_node: "u \<in> set (nodes G) \<Longrightarrow> \<exists>a. map_of G u = Some a"
  by (cases "map_of G u") (auto simp: nodes_def map_of_eq_None_iff)

lemma map_of_not_node: "u \<notin> set (nodes G) \<Longrightarrow> map_of G u = None"
  by (simp add: nodes_def map_of_eq_None_iff)

lemma edge_attrs_lookup:
  "lookup G u v = Some e \<Longrightarrow> edge_attrs G u v = Inr e"
  by (auto simp: lookup_def edge_attrs_def adj_def split: option.splits)

lemma get_capacity_lookup: "lookup G u v = Some e \<Longrightarrow> get_capacity G u v = Inr (capacity e)"
  by (simp add: get_capacity_def edge_attrs_lookup)

lemma get_flow_lookup: "lookup G u v = Some e \<Longrightarrow> flow e = Some f \<Longrightarrow> get_flow G u v = Inr f"
  by (simp add: get_flow_def edge_attrs_lookup)

lemma residual_lookup:
  "lookup G u v = Some e \<Longrightarrow> flow e = Some f \<Longrightarrow> residual G u v = Inr (capacity e - f)"
  by (simp add: residual_def get_capacity_lookup get_flow_lookup)

lemma lookup_succ:
  assumes "map_of G u = Some a" "v \<in> fst ` set a"
  shows "\<exists>e. lookup G u v = Some e"
  using assms by (cases "map_of a v") (auto simp: lookup_def map_of_eq_None_iff)

lemma bfs_scan_no_sink:
  assumes "map_of G u = Some a" "flows_set G"
  shows "set vs \<subseteq> fst ` set a \<Longrightarrow> t \<notin> set vs \<Longrightarrow>
     \<exists>visited' parent' q'. bfs_scan G t u vs (visited, parent, q) = Inr (False, visited', parent', q')
        \<and> set q' \<subseteq> set q \<union> set vs"
proof (induction vs arbitrary: visited parent q)
  case Nil
  then show ?case by simp
next
  case (Cons v vs)
  from Cons.prems have "v \<in> fst ` set a" by simp
  from lookup_succ[OF assms(1) this] obtain e where e: "lookup G u v = Some e" by blast
  with assms(2) obtain f where f: "flow e = Some f" unfolding flows_set_def by fastforce
  have c: "get_capacity G u v = Inr (capacity e)" and g: "get_flow G u v = Inr f"
    using e f by (simp_all add: get_capacity_lookup get_flow_lookup)
  from Cons.prems have vt: "v \<noteq> t" and sub: "set vs \<subseteq> fst ` set a" and nt: "t \<notin> set vs" by auto
  show ?case
  proof (cases "v \<notin> set visited \<and> capacity e - f > 0")
    case True
    from Cons.IH[OF sub nt, of "v # visited" "parent(v \<mapsto> u)" "q @ [v]"]
    obtain visited' parent' q' where
      "bfs_scan G t u vs (v # visited, parent(v \<mapsto> u), q @ [v]) = Inr (False, visited', parent', q')"
      "set q' \<subseteq> set (q @ [v]) \<union> set vs" by blast
    with True vt c g show ?thesis by auto
  next
    case False
    from Cons.IH[OF sub nt, of visited parent q]
    obtain visited' parent' q' where
      "bfs_scan G t u vs (visited, parent, q) = Inr (False, visited', parent', q')"
      "set q' \<subseteq> set q \<union> set vs" by blast
    with False c g show ?thesis by auto
  qed
qed

lemma bfs_loop_no_sink:
  "wf_graph G \<Longrightarrow> flows_set G \<Longrightarrow> t \<notin> set (nodes G) \<Longrightarrow> set (snd (snd st)) \<subseteq> set (nodes G) \<Longrightarrow>
   \<exists>p. bfs_loop G t st = Inr (False, p)"
proof (induction G t st rule: bfs_loop.induct)
  case (1 G t visited parent)
  then show ?case by simp
next
  case (2 G t visited parent u q)
  note wf = "2.prems"(1) and fs = "2.prems"(2) and tn = "2.prems"(3)
  from "2.prems"(4) have "u \<in> set (nodes G)" by simp
  then obtain a where a: "map_of G u = Some a" using map_of_node by blast
  have s: "succs G u = Inr (map fst a)" by (rule succs_Inr[OF a])
  from wf a have sub: "fst ` set a \<subseteq> set (nodes G)" by (auto simp: wf_graph_iff)
  with tn have nt: "t \<notin> set (map fst a)" by auto
  from bfs_scan_no_sink[OF a fs _ nt, of visited parent q]
  obtain visited' parent' q' where
    sc: "bfs_scan G t u (map fst a) (visited, parent, q) = Inr (False, visited', parent', q')"
    and q': "set q' \<subseteq> set q \<union> set (map fst a)" by auto
  from q' sub "2.prems"(4) have "set (snd (snd (visited', parent', q'))) \<subseteq> set (nodes G)" by auto
  from "2.IH"[OF s sc _ _ wf fs tn this] obtain p where
    "bfs_loop G t (visited', parent', q') = Inr (False, p)" by auto
  with s sc show ?case by simp
qed

lemma wf_reset_prepare:
  assumes "wf_graph G"
  shows "reset_flows (prepare_graph G) = zero_flows (prepare_graph G)"
    and "wf_graph (reset_flows (prepare_graph G))"
    and "nodes (reset_flows (prepare_graph G)) = nodes G"
    and "flows_set (reset_flows (prepare_graph G))"
proof -
  have w: "wf_graph (prepare_graph G)" by (rule wf_prepare_graph(1)[OF assms])
  show r: "reset_flows (prepare_graph G) = zero_flows (prepare_graph G)"
    by (rule reset_flows_zero_flows[OF w])
  show "wf_graph (reset_flows (prepare_graph G))"
    unfolding r zero_flows_def by (rule wf_map_attrs[OF w])
  show "nodes (reset_flows (prepare_graph G)) = nodes G"
    unfolding r zero_flows_def nodes_map_attrs by (rule wf_prepare_graph(2)[OF assms])
  show "flows_set (reset_flows (prepare_graph G))"
    unfolding r flows_set_def lookup_zero_flows by auto
qed

lemma bfs_unknown_source: "map_of G s = None \<Longrightarrow> bfs G s t = Inl (KeyError s)"
  by (simp add: bfs_def succs_Inl)

lemma edmonds_karp_unknown_source:
  assumes "wf_graph G" "\<not> has_node G s"
  shows "edmonds_karp_steps G s t = Some (Inl (KeyError s, reset_flows (prepare_graph G)))"
proof -
  from assms have "s \<notin> set (nodes (reset_flows (prepare_graph G)))"
    by (simp add: wf_reset_prepare(3) has_node_nodes)
  then have "bfs (reset_flows (prepare_graph G)) s t = Inl (KeyError s)"
    by (intro bfs_unknown_source map_of_not_node)
  then show ?thesis
    unfolding edmonds_karp_steps_def by (subst ek_loop.simps) simp
qed

lemma dinic_unknown_source:
  assumes "wf_graph G" "\<not> has_node G s"
  shows "dinic_apply G s t = Some (Inl (KeyError s, prepare_graph G))"
proof -
  from assms have "s \<notin> set (nodes (prepare_graph G))"
    by (simp add: wf_prepare_graph(2) has_node_nodes)
  then have "succs (prepare_graph G) s = Inl (KeyError s)"
    by (intro succs_Inl map_of_not_node)
  then have "bfs_level (prepare_graph G) s = Some (Inl (KeyError s))"
    unfolding bfs_level_def by (subst bfs_level_loop.simps) simp
  then show ?thesis
    unfolding dinic_apply_def by (subst dinic_loop.simps) simp
qed

lemma push_relabel_unknown_source:
  assumes "wf_graph G" "\<not> has_node G s"
  shows "push_relabel_apply G s t = Some (Inl (KeyError s, prepare_graph G))"
proof -
  from assms have "s \<notin> set (nodes (prepare_graph G))"
    by (simp add: wf_prepare_graph(2) has_node_nodes)
  then have "succs (prepare_graph G) s = Inl (KeyError s)"
    by (intro succs_Inl map_of_not_node)
  then show ?thesis
    by (simp add: push_relabel_apply_def pr_init_def Let_def)
qed

lemma edmonds_karp_unknown_sink:
  assumes "wf_graph G" "has_node G s" "\<not> has_node G t"
  shows "edmonds_karp_steps G s t = Some (Inr (([], Fin 0), reset_flows (prepare_graph G)))"
proof -
  let ?H = "reset_flows (prepare_graph G)"
  from assms have s: "set (snd (snd ([s], Map.empty :: node \<rightharpoonup> node, [s]))) \<subseteq> set (nodes ?H)"
    and t: "t \<notin> set (nodes ?H)"
    by (simp_all add: wf_reset_prepare(3) has_node_nodes)
  from bfs_loop_no_sink[OF wf_reset_prepare(2)[OF assms(1)] wf_reset_prepare(4)[OF assms(1)] t s]
  obtain p where "bfs ?H s t = Inr (False, p)" unfolding bfs_def by blast
  then show ?thesis
    unfolding edmonds_karp_steps_def by (subst ek_loop.simps) simp
qed

section \<open>The minimum cut\<close>

lemma lookup_entry:
  assumes "wf_graph G" "map_of G u = Some a" "(v, e) \<in> set a"
  shows "lookup G u v = Some e"
proof -
  from assms(1,2) have "distinct (map fst a)" by (auto simp: wf_graph_iff)
  with assms(3) have "map_of a v = Some e" by simp
  with assms(2) show ?thesis by (simp add: lookup_def)
qed

lemma res_rel_lookup:
  assumes "flows_set G"
  shows "(u, v) \<in> res_rel G \<longleftrightarrow>
         (\<exists>e f. lookup G u v = Some e \<and> flow e = Some f \<and> 0 < capacity e - f)"
proof
  assume "(u, v) \<in> res_rel G"
  then obtain r where r: "residual G u v = Inr r" "0 < r" by (auto simp: res_rel_def)
  then show "\<exists>e f. lookup G u v = Some e \<and> flow e = Some f \<and> 0 < capacity e - f"
    by (auto simp: residual_def get_capacity_def get_flow_def edge_attrs_def adj_def lookup_def
        split: sum.splits option.splits)
next
  assume "\<exists>e f. lookup G u v = Some e \<and> flow e = Some f \<and> 0 < capacity e - f"
  then show "(u, v) \<in> res_rel G"
    by (auto simp: res_rel_def residual_lookup)
qed

lemma stack_succs_set:
  assumes "map_of G u = Some a" "flows_set G"
  shows "set vs \<subseteq> fst ` set a \<Longrightarrow>
     \<exists>stack'. stack_succs G u vs stack = Inr stack'
        \<and> set stack' = set stack \<union> {v \<in> set vs. (u, v) \<in> res_rel G}"
proof (induction vs arbitrary: stack)
  case Nil
  then show ?case by simp
next
  case (Cons v vs)
  from Cons.prems have "v \<in> fst ` set a" by simp
  from lookup_succ[OF assms(1) this] obtain e where e: "lookup G u v = Some e" by blast
  with assms(2) obtain f where f: "flow e = Some f" unfolding flows_set_def by fastforce
  have r: "residual G u v = Inr (capacity e - f)" by (rule residual_lookup[OF e f])
  have m: "(u, v) \<in> res_rel G \<longleftrightarrow> 0 < capacity e - f"
    by (simp add: res_rel_def r)
  from Cons.prems have sub: "set vs \<subseteq> fst ` set a" by simp
  from Cons.IH[OF sub, of "if capacity e - f > 0 then v # stack else stack"]
  obtain stack' where
    "stack_succs G u vs (if capacity e - f > 0 then v # stack else stack) = Inr stack'"
    "set stack' = set (if capacity e - f > 0 then v # stack else stack) \<union> {v \<in> set vs. (u, v) \<in> res_rel G}"
    by blast
  with r m show ?case by auto
qed

lemma res_rel_succ:
  assumes "map_of G u = Some a" "(u, v) \<in> res_rel G"
  shows "v \<in> fst ` set a"
proof -
  from assms(2) obtain r where "residual G u v = Inr r" by (auto simp: res_rel_def)
  then obtain e where "map_of a v = Some e"
    using assms(1)
    by (auto simp: residual_def get_capacity_def edge_attrs_def adj_def split: sum.splits option.splits)
  then show ?thesis by (metis map_of_SomeD fst_conv image_eqI)
qed

lemma rtrancl_image_step:
  assumes "u \<in> X" "Y \<subseteq> X \<union> R `` {u}"
  shows "R\<^sup>* `` Y \<subseteq> R\<^sup>* `` X"
proof
  fix z assume "z \<in> R\<^sup>* `` Y"
  then obtain y where y: "y \<in> Y" "(y, z) \<in> R\<^sup>*" by auto
  from y(1) assms(2) consider "y \<in> X" | "(u, y) \<in> R" by auto
  then show "z \<in> R\<^sup>* `` X"
  proof cases
    case 1
    with y show ?thesis by auto
  next
    case 2
    with y(2) have "(u, z) \<in> R\<^sup>*" by (simp add: converse_rtrancl_into_rtrancl)
    with assms(1) show ?thesis by auto
  qed
qed

lemma reach_correct:
  "wf_graph G \<Longrightarrow> flows_set G \<Longrightarrow> set stack \<subseteq> set (nodes G) \<Longrightarrow> distinct visited \<Longrightarrow>
   set visited \<subseteq> set (nodes G) \<Longrightarrow>
   \<exists>vis. reach G visited stack = Inr vis \<and> distinct vis \<and> set vis \<subseteq> set (nodes G)
     \<and> set visited \<union> set stack \<subseteq> set vis
     \<and> set vis \<subseteq> (res_rel G)\<^sup>* `` (set visited \<union> set stack)
     \<and> ((\<forall>x\<in>set visited. \<forall>y. (x, y) \<in> res_rel G \<longrightarrow> y \<in> set visited \<union> set stack)
          \<longrightarrow> (\<forall>x\<in>set vis. \<forall>y. (x, y) \<in> res_rel G \<longrightarrow> y \<in> set vis))"
proof (induction G visited stack rule: reach.induct)
  case (1 G visited)
  then show ?case by auto
next
  case (2 G visited u stack)
  note wf = "2.prems"(1) and fs = "2.prems"(2)
  let ?R = "res_rel G"
  show ?case
  proof (cases "u \<in> set visited")
    case True
    from "2.prems" have p: "set stack \<subseteq> set (nodes G)" by simp
    from "2.IH"(2)[OF _ wf fs p "2.prems"(4,5)] True
    obtain vis where v: "reach G visited stack = Inr vis" "distinct vis" "set vis \<subseteq> set (nodes G)"
      "set visited \<union> set stack \<subseteq> set vis"
      "set vis \<subseteq> ?R\<^sup>* `` (set visited \<union> set stack)"
      "(\<forall>x\<in>set visited. \<forall>y. (x, y) \<in> ?R \<longrightarrow> y \<in> set visited \<union> set stack)
          \<longrightarrow> (\<forall>x\<in>set vis. \<forall>y. (x, y) \<in> ?R \<longrightarrow> y \<in> set vis)"
      by blast
    have A: "set visited \<union> set (u # stack) \<subseteq> set vis" using v(4) True by auto
    have C: "set vis \<subseteq> ?R\<^sup>* `` (set visited \<union> set (u # stack))"
      using v(5) by (rule subset_trans) (auto intro!: Image_mono)
    have B: "(\<forall>x\<in>set visited. \<forall>y. (x, y) \<in> ?R \<longrightarrow> y \<in> set visited \<union> set (u # stack))
          \<longrightarrow> (\<forall>x\<in>set vis. \<forall>y. (x, y) \<in> ?R \<longrightarrow> y \<in> set vis)"
      using v(6) True by auto
    from v(1,2,3) A C B True show ?thesis by simp
  next
    case False
    from "2.prems"(3) have un: "u \<in> set (nodes G)" by simp
    then obtain a where a: "map_of G u = Some a" using map_of_node by blast
    have s: "succs G u = Inr (map fst a)" by (rule succs_Inr[OF a])
    from wf a have sub: "fst ` set a \<subseteq> set (nodes G)" by (auto simp: wf_graph_iff)
    from stack_succs_set[OF a fs, of "map fst a" stack]
    obtain stack2 where st: "stack_succs G u (map fst a) stack = Inr stack2"
      and st2: "set stack2 = set stack \<union> {v \<in> set (map fst a). (u, v) \<in> ?R}" by auto
    have st3: "set stack2 = set stack \<union> ?R `` {u}"
      unfolding st2 using res_rel_succ[OF a] by auto
    have p1: "set stack2 \<subseteq> set (nodes G)" using st2 sub "2.prems"(3) by auto
    have p2: "distinct (visited @ [u])" using False "2.prems"(4) by simp
    have p3: "set (visited @ [u]) \<subseteq> set (nodes G)" using un "2.prems"(5) by simp
    from "2.IH"(1)[OF False s st wf fs p1 p2 p3]
    obtain vis where v: "reach G (visited @ [u]) stack2 = Inr vis" "distinct vis"
      "set vis \<subseteq> set (nodes G)"
      "set (visited @ [u]) \<union> set stack2 \<subseteq> set vis"
      "set vis \<subseteq> ?R\<^sup>* `` (set (visited @ [u]) \<union> set stack2)"
      "(\<forall>x\<in>set (visited @ [u]). \<forall>y. (x, y) \<in> ?R \<longrightarrow> y \<in> set (visited @ [u]) \<union> set stack2)
          \<longrightarrow> (\<forall>x\<in>set vis. \<forall>y. (x, y) \<in> ?R \<longrightarrow> y \<in> set vis)"
      by blast
    have A: "set visited \<union> set (u # stack) \<subseteq> set vis" using v(4) st3 by auto
    have "?R\<^sup>* `` (set (visited @ [u]) \<union> set stack2) \<subseteq> ?R\<^sup>* `` (set visited \<union> set (u # stack))"
      by (rule rtrancl_image_step[of u]) (auto simp: st3)
    with v(5) have C: "set vis \<subseteq> ?R\<^sup>* `` (set visited \<union> set (u # stack))" by blast
    have B: "(\<forall>x\<in>set visited. \<forall>y. (x, y) \<in> ?R \<longrightarrow> y \<in> set visited \<union> set (u # stack))
          \<longrightarrow> (\<forall>x\<in>set vis. \<forall>y. (x, y) \<in> ?R \<longrightarrow> y \<in> set vis)"
    proof
      assume h: "\<forall>x\<in>set visited. \<forall>y. (x, y) \<in> ?R \<longrightarrow> y \<in> set visited \<union> set (u # stack)"
      have "\<forall>x\<in>set (visited @ [u]). \<forall>y. (x, y) \<in> ?R \<longrightarrow> y \<in> set (visited @ [u]) \<union> set stack2"
        using h st3 by auto
      with v(6) show "\<forall>x\<in>set vis. \<forall>y. (x, y) \<in> ?R \<longrightarrow> y \<in> set vis" by blast
    qed
    from v(1,2,3) A C B False s st show ?thesis by simp
  qed
qed

lemma reach_from_source:
  assumes "wf_graph G" "flows_set G" "has_node G s"
  shows "\<exists>vis. reach G [] [s] = Inr vis \<and> distinct vis \<and> set vis \<subseteq> set (nodes G)
           \<and> set vis = (res_rel G)\<^sup>* `` {s}"
proof -
  from assms(3) have "set [s] \<subseteq> set (nodes G)" by (simp add: has_node_nodes)
  from reach_correct[OF assms(1,2) this, of "[]"]
  obtain vis where v: "reach G [] [s] = Inr vis" "distinct vis" "set vis \<subseteq> set (nodes G)"
    "s \<in> set vis" "set vis \<subseteq> (res_rel G)\<^sup>* `` {s}"
    "\<forall>x\<in>set vis. \<forall>y. (x, y) \<in> res_rel G \<longrightarrow> y \<in> set vis"
    by auto
  have "(res_rel G)\<^sup>* `` {s} \<subseteq> set vis"
  proof
    fix z assume "z \<in> (res_rel G)\<^sup>* `` {s}"
    then have "(s, z) \<in> (res_rel G)\<^sup>*" by simp
    then show "z \<in> set vis"
      by (induction rule: rtrancl_induct) (use v(4,6) in auto)
  qed
  with v show ?thesis by blast
qed

lemma cut_scan_list:
  "(\<And>v e. (v, e) \<in> set es \<Longrightarrow> lookup G u v = Some e) \<Longrightarrow>
   cut_scan G visited u (map fst es) cuts = Inr (cuts @ cut_of visited u es)"
proof (induction es arbitrary: cuts)
  case Nil
  then show ?case by (simp add: cut_of_def)
next
  case (Cons p es)
  obtain v e where p: "p = (v, e)" by (cases p)
  from Cons.prems[of v e] have "lookup G u v = Some e" by (simp add: p)
  then have c: "get_capacity G u v = Inr (capacity e)" by (rule get_capacity_lookup)
  have IH: "cut_scan G visited u (map fst es) cs = Inr (cs @ cut_of visited u es)" for cs
    using Cons.prems by (intro Cons.IH) simp
  show ?case
    unfolding p by (simp add: c IH) (simp add: cut_of_def)
qed

lemma cut_loop_list:
  assumes "wf_graph G"
  shows "set us \<subseteq> set (nodes G) \<Longrightarrow>
     \<exists>cuts'. cut_loop G visited us cuts = Inr cuts'
       \<and> set cuts' = set cuts \<union> {(u, v, c). u \<in> set us \<and> v \<notin> set visited
                                   \<and> (\<exists>e. lookup G u v = Some e \<and> capacity e = c \<and> 0 < c)}"
proof (induction us arbitrary: cuts)
  case Nil
  then show ?case by simp
next
  case (Cons u us)
  from Cons.prems have "u \<in> set (nodes G)" by simp
  then obtain a where a: "map_of G u = Some a" using map_of_node by blast
  have s: "succs G u = Inr (map fst a)" by (rule succs_Inr[OF a])
  have sc: "cut_scan G visited u (map fst a) cuts = Inr (cuts @ cut_of visited u a)"
    by (rule cut_scan_list) (rule lookup_entry[OF assms a])
  have look: "lookup G u v = Some e \<longleftrightarrow> (v, e) \<in> set a" for v e
  proof
    assume "lookup G u v = Some e"
    then show "(v, e) \<in> set a" using a by (auto simp: lookup_def dest: map_of_SomeD)
  next
    assume "(v, e) \<in> set a"
    then show "lookup G u v = Some e" by (rule lookup_entry[OF assms a])
  qed
  have one: "set (cut_of visited u a)
      = {(u', v, c). u' = u \<and> v \<notin> set visited \<and> (\<exists>e. lookup G u v = Some e \<and> capacity e = c \<and> 0 < c)}"
    unfolding cut_of_def look by force
  from Cons.prems have "set us \<subseteq> set (nodes G)" by simp
  from Cons.IH[OF this, of "cuts @ cut_of visited u a"]
  obtain cuts' where c: "cut_loop G visited us (cuts @ cut_of visited u a) = Inr cuts'"
    "set cuts' = set (cuts @ cut_of visited u a) \<union> {(u, v, c). u \<in> set us \<and> v \<notin> set visited
                                   \<and> (\<exists>e. lookup G u v = Some e \<and> capacity e = c \<and> 0 < c)}"
    by blast
  have "set cuts' = set cuts \<union> {(u', v, c). u' \<in> set (u # us) \<and> v \<notin> set visited
                                   \<and> (\<exists>e. lookup G u' v = Some e \<and> capacity e = c \<and> 0 < c)}"
    unfolding c(2) set_append one by auto
  with c(1) s sc show ?case by simp
qed

lemma flows_setI:
  assumes "list_all (\<lambda>ua. list_all (\<lambda>ve. flow (snd ve) \<noteq> None) (snd ua)) G"
  shows "flows_set G"
  unfolding flows_set_def
proof (intro allI impI)
  fix u v e assume "lookup G u v = Some e"
  then obtain a where "(u, a) \<in> set G" "(v, e) \<in> set a"
    by (auto simp: lookup_def split: option.splits dest: map_of_SomeD)
  with assms show "flow e \<noteq> None" unfolding list_all_iff by fastforce
qed

text \<open>
  C7. On a graph with a flow on every edge and the source among its nodes,
  \<open>min_cut_report\<close> returns a list whose elements are exactly the edges \<open>(u, v, capacity)\<close>
  with \<open>u\<close> reachable from the source along edges of positive residual capacity, \<open>v\<close> not
  reachable, and a positive capacity; an edge of capacity 0 is never among them. The set
  \<open>visited\<close> that the search builds is the reachable set, and the cut is the same in
  whatever order Python iterates that set.
\<close>

theorem min_cut_report_correct:
  assumes "wf_graph G" "flows_set G" "has_node G s"
  shows "\<exists>cuts visited.
           min_cut_report G s = Inr cuts \<and> set cuts = crossing_edges G s
         \<and> reach G [] [s] = Inr visited \<and> set visited = (res_rel G)\<^sup>* `` {s}
         \<and> (\<forall>us. set us = set visited \<longrightarrow>
               (\<exists>cuts'. cut_loop G visited us [] = Inr cuts' \<and> set cuts' = crossing_edges G s))"
proof -
  from reach_from_source[OF assms]
  obtain vis where v: "reach G [] [s] = Inr vis" "set vis \<subseteq> set (nodes G)"
    "set vis = (res_rel G)\<^sup>* `` {s}" by blast
  have any: "\<exists>cuts'. cut_loop G vis us [] = Inr cuts' \<and> set cuts' = crossing_edges G s"
    if us: "set us = set vis" for us
  proof -
    from us v(2) have "set us \<subseteq> set (nodes G)" by simp
    from cut_loop_list[OF assms(1) this, of vis "[]"]
    obtain cuts where c: "cut_loop G vis us [] = Inr cuts"
      "set cuts = {(u, v, c). u \<in> set us \<and> v \<notin> set vis
                     \<and> (\<exists>e. lookup G u v = Some e \<and> capacity e = c \<and> 0 < c)}"
      by auto
    have "set cuts = crossing_edges G s"
      unfolding c(2) us v(3) crossing_edges_def by auto
    with c(1) show ?thesis by blast
  qed
  from any[of vis] obtain cuts where "cut_loop G vis vis [] = Inr cuts" "set cuts = crossing_edges G s"
    by auto
  with v(1,3) any show ?thesis by (auto simp: min_cut_report_def)
qed

theorem min_cut_report_correct_witness:
  "wf_graph line_solved \<and> flows_set line_solved \<and> has_node line_solved ''S''
   \<and> min_cut_report line_solved ''S'' = Inr [(''A'', ''T'', 3)]
   \<and> crossing_edges line_solved ''S'' = {(''A'', ''T'', 3)}"
proof -
  have h1: "wf_graph line_solved" by code_simp
  have h2: "flows_set line_solved" by (rule flows_setI) code_simp
  have h3: "has_node line_solved ''S''" by code_simp
  have m: "min_cut_report line_solved ''S'' = Inr [(''A'', ''T'', 3)]" by code_simp
  from min_cut_report_correct[OF h1 h2 h3] m
  have "crossing_edges line_solved ''S'' = {(''A'', ''T'', 3)}" by auto
  with h1 h2 h3 m show ?thesis by simp
qed

section \<open>Skew symmetry\<close>

lemma edge_attrs_Inr: "edge_attrs G u v = Inr a \<longleftrightarrow> lookup G u v = Some a"
  by (auto simp: edge_attrs_def adj_def lookup_def split: option.splits)

lemma get_flow_Inr:
  "get_flow G u v = Inr f \<longleftrightarrow> (\<exists>a. lookup G u v = Some a \<and> flow a = Some f)"
  by (cases "edge_attrs G u v")
     (auto simp: get_flow_def edge_attrs_Inr[symmetric] split: option.splits)

lemma get_capacity_Inr:
  "get_capacity G u v = Inr c \<longleftrightarrow> (\<exists>a. lookup G u v = Some a \<and> capacity a = c)"
  by (cases "edge_attrs G u v") (auto simp: get_capacity_def edge_attrs_Inr[symmetric])

lemma lookup_upd_attrs_same:
  "lookup (upd_attrs G u v f) u v = map_option f (lookup G u v)"
  by (simp add: lookup_upd_attrs)

lemma lookup_upd_attrs_other:
  "x \<noteq> u \<or> y \<noteq> v \<Longrightarrow> lookup (upd_attrs G u v f) x y = lookup G x y"
  by (auto simp: lookup_upd_attrs)

lemma add_flow_Inr:
  assumes "add_flow G u v d = Inr G'"
  obtains a f where "lookup G u v = Some a" "flow a = Some f"
    "G' = upd_attrs G u v (\<lambda>a. a\<lparr>flow := Some (f + d)\<rparr>)"
proof -
  from assms obtain f where f: "get_flow G u v = Inr f"
    and G': "G' = upd_attrs G u v (\<lambda>a. a\<lparr>flow := Some (f + d)\<rparr>)"
    by (auto simp: add_flow_def split: sum.splits)
  from f obtain a where a: "lookup G u v = Some a" "flow a = Some f" by (auto simp: get_flow_Inr)
  show ?thesis by (rule that[OF a G'])
qed

lemma push_flow_lookup:
  assumes "push_flow G u v d = Inr G'"
  obtains a b f g where "lookup G u v = Some a" "flow a = Some f"
    "lookup G v u = Some b" "flow b = Some g"
    "u \<noteq> v \<Longrightarrow> lookup G' u v = Some (a\<lparr>flow := Some (f + d)\<rparr>)"
    "u \<noteq> v \<Longrightarrow> lookup G' v u = Some (b\<lparr>flow := Some (g - d)\<rparr>)"
    "u = v \<Longrightarrow> lookup G' u u = Some a"
    "\<And>x y. x \<noteq> u \<or> y \<noteq> v \<Longrightarrow> x \<noteq> v \<or> y \<noteq> u \<Longrightarrow> lookup G' x y = lookup G x y"
proof -
  from assms obtain G1 where 1: "add_flow G u v d = Inr G1" and 2: "add_flow G1 v u (- d) = Inr G'"
    by (auto simp: push_flow_def split: sum.splits)
  from 1 obtain a f where a: "lookup G u v = Some a" "flow a = Some f"
    and G1: "G1 = upd_attrs G u v (\<lambda>a. a\<lparr>flow := Some (f + d)\<rparr>)"
    by (rule add_flow_Inr)
  from 2 obtain b1 g1 where b1: "lookup G1 v u = Some b1" "flow b1 = Some g1"
    and G': "G' = upd_attrs G1 v u (\<lambda>a. a\<lparr>flow := Some (g1 + - d)\<rparr>)"
    by (rule add_flow_Inr)
  have other: "lookup G' x y = lookup G x y" if "x \<noteq> u \<or> y \<noteq> v" "x \<noteq> v \<or> y \<noteq> u" for x y
    unfolding G' G1 using that by (simp add: lookup_upd_attrs_other)
  show ?thesis
  proof (cases "u = v")
    case True
    from b1(1) have "b1 = a\<lparr>flow := Some (f + d)\<rparr>"
      unfolding G1 True using a(1) by (simp add: lookup_upd_attrs_same True)
    with b1(2) have g1: "g1 = f + d" by simp
    have "lookup G' u u = Some a"
      unfolding G' True[symmetric] lookup_upd_attrs_same using b1(1) \<open>b1 = _\<close> g1 a(2) True
      by simp
    with a True other show ?thesis by (intro that[of a f a f]) auto
  next
    case False
    then have ne: "v \<noteq> u \<or> u \<noteq> v" by simp
    from b1(1) have b: "lookup G v u = Some b1"
      unfolding G1 by (simp add: lookup_upd_attrs_other[OF ne])
    have l1: "lookup G' u v = Some (a\<lparr>flow := Some (f + d)\<rparr>)"
      unfolding G' using False a(1)
      by (simp add: lookup_upd_attrs_other G1 lookup_upd_attrs_same)
    have l2: "lookup G' v u = Some (b1\<lparr>flow := Some (g1 - d)\<rparr>)"
      unfolding G' by (simp add: lookup_upd_attrs_same b1(1))
    from a b b1(2) l1 l2 False other show ?thesis by (intro that[of a f b1 g1]) auto
  qed
qed

lemma skew_push_flow:
  assumes "skew G" "push_flow G u v d = Inr G'"
  shows "skew G'"
  using assms(2)
proof (rule push_flow_lookup)
  fix a b f g
  assume a: "lookup G u v = Some a" "flow a = Some f" and b: "lookup G v u = Some b" "flow b = Some g"
    and uv: "u \<noteq> v \<Longrightarrow> lookup G' u v = Some (a\<lparr>flow := Some (f + d)\<rparr>)"
    and vu: "u \<noteq> v \<Longrightarrow> lookup G' v u = Some (b\<lparr>flow := Some (g - d)\<rparr>)"
    and uu: "u = v \<Longrightarrow> lookup G' u u = Some a"
    and oth: "\<And>x y. x \<noteq> u \<or> y \<noteq> v \<Longrightarrow> x \<noteq> v \<or> y \<noteq> u \<Longrightarrow> lookup G' x y = lookup G x y"
  from assms(1) a b have gf: "g = - f" by (fastforce simp: skew_def)
  show ?thesis
    unfolding skew_def
  proof (intro allI impI)
    fix x y e assume l: "lookup G' x y = Some e"
    consider (fwd) "x = u" "y = v" "u \<noteq> v" | (rev) "x = v" "y = u" "u \<noteq> v"
      | (loop) "x = u" "y = u" "u = v"
      | (other) "x \<noteq> u \<or> y \<noteq> v" "x \<noteq> v \<or> y \<noteq> u" by blast
    then show "\<exists>b f. lookup G' y x = Some b \<and> flow e = Some f \<and> flow b = Some (- f)"
    proof cases
      case fwd
      with l uv vu gf show ?thesis by auto
    next
      case rev
      with l uv vu gf show ?thesis by auto
    next
      case loop
      with l uu have "e = a" by simp
      with loop uu a b gf show ?thesis by auto
    next
      case other
      from l have "lookup G x y = Some e" unfolding oth[OF other] .
      with assms(1) obtain b' f' where
        r: "lookup G y x = Some b'" "flow e = Some f'" "flow b' = Some (- f')"
        by (fastforce simp: skew_def)
      from other have "lookup G' y x = lookup G y x" by (intro oth) auto
      with r show ?thesis by simp
    qed
  qed
qed

lemma push_flow_changes:
  assumes "push_flow G u v d = Inr G'" "u \<noteq> v"
  shows "\<exists>f g. get_flow G u v = Inr f \<and> get_flow G v u = Inr g
           \<and> get_flow G' u v = Inr (f + d) \<and> get_flow G' v u = Inr (g - d)"
  using assms(1)
proof (rule push_flow_lookup)
  fix a b f g
  assume "lookup G u v = Some a" "flow a = Some f" "lookup G v u = Some b" "flow b = Some g"
    "u \<noteq> v \<Longrightarrow> lookup G' u v = Some (a\<lparr>flow := Some (f + d)\<rparr>)"
    "u \<noteq> v \<Longrightarrow> lookup G' v u = Some (b\<lparr>flow := Some (g - d)\<rparr>)"
  with assms(2) show ?thesis by (auto simp: get_flow_Inr)
qed

lemma no_flow_default_flow: "flow a = None \<or> flow a = Some 0 \<Longrightarrow> flow (default_flow a) = Some 0"
  by (auto simp: default_flow_def)

lemma no_flow_setdefault_flow:
  assumes "no_flow G"
  shows "no_flow (setdefault_flow G u v)"
  unfolding no_flow_def
proof (intro allI impI)
  fix x y a assume l: "lookup (setdefault_flow G u v) x y = Some a"
  show "flow a = None \<or> flow a = Some 0"
  proof (cases "x = u \<and> y = v")
    case True
    with l obtain b where "lookup G u v = Some b" "a = default_flow b"
      by (auto simp: lookup_setdefault_flow_same)
    with assms show ?thesis by (auto simp: no_flow_def no_flow_default_flow)
  next
    case False
    then have "x \<noteq> u \<or> y \<noteq> v" by simp
    with l assms show ?thesis by (auto simp: lookup_setdefault_flow_other no_flow_def)
  qed
qed

lemma no_flow_add_edge:
  assumes "no_flow G" "flow a = Some 0"
  shows "no_flow (add_edge G u v a)"
  unfolding no_flow_def
proof (intro allI impI)
  fix x y b assume l: "lookup (add_edge G u v a) x y = Some b"
  show "flow b = None \<or> flow b = Some 0"
  proof (cases "x = u \<and> y = v")
    case True
    with l assms(2) show ?thesis by (simp add: lookup_add_edge_same)
  next
    case False
    then have "x \<noteq> u \<or> y \<noteq> v" by simp
    with l assms(1) show ?thesis by (auto simp: lookup_add_edge_other no_flow_def)
  qed
qed

lemma no_flow_prepare_edge:
  assumes "no_flow G"
  shows "no_flow (prepare_edge G e)"
proof -
  obtain u v where e: "e = (u, v)" by (cases e)
  show ?thesis
  proof (cases "lookup (setdefault_flow G u v) v u = None")
    case True
    show ?thesis unfolding e prepare_edge_new[OF True]
      by (intro no_flow_add_edge no_flow_setdefault_flow assms) simp
  next
    case False
    show ?thesis unfolding e prepare_edge_old[OF False]
      by (intro no_flow_setdefault_flow assms)
  qed
qed

lemma no_flow_prepare_graph: "no_flow G \<Longrightarrow> no_flow (prepare_graph G)"
proof -
  have "no_flow H \<Longrightarrow> no_flow (foldl prepare_edge H es)" for H es
    by (induction es arbitrary: H) (simp_all add: no_flow_prepare_edge)
  then show "no_flow G \<Longrightarrow> no_flow (prepare_graph G)" by (simp add: prepare_graph_def)
qed

lemma skew_zero:
  assumes "prepared G" "\<And>u v a. lookup G u v = Some a \<Longrightarrow> flow a = Some 0"
  shows "skew G"
  unfolding skew_def
proof (intro allI impI)
  fix u v a assume l: "lookup G u v = Some a"
  with assms(1) obtain b where b: "lookup G v u = Some b" unfolding prepared_def by fastforce
  from assms(2)[OF l] assms(2)[OF b] b
  show "\<exists>b f. lookup G v u = Some b \<and> flow a = Some f \<and> flow b = Some (- f)" by simp
qed

lemma skew_prepare_graph:
  assumes "wf_graph G" "no_flow G"
  shows "skew (prepare_graph G)"
proof (rule skew_zero)
  from assms(1) have d: "distinct (nodes G)" by (simp add: wf_graph_iff)
  show p: "prepared (prepare_graph G)" by (rule prepared_prepare_graph[OF d])
  fix u v a assume l: "lookup (prepare_graph G) u v = Some a"
  with p have "flow a \<noteq> None" unfolding prepared_def by blast
  moreover from no_flow_prepare_graph[OF assms(2)] l have "flow a = None \<or> flow a = Some 0"
    unfolding no_flow_def by blast
  ultimately show "flow a = Some 0" by (elim disjE) simp_all
qed

lemma prepared_zero_flows: "prepared G \<Longrightarrow> prepared (zero_flows G)"
  unfolding prepared_def lookup_zero_flows by auto

lemma skew_reset_prepare:
  assumes "wf_graph G"
  shows "skew (reset_flows (prepare_graph G))"
  unfolding wf_reset_prepare(1)[OF assms]
proof (rule skew_zero)
  from assms have d: "distinct (nodes G)" by (simp add: wf_graph_iff)
  show "prepared (zero_flows (prepare_graph G))"
    by (rule prepared_zero_flows[OF prepared_prepare_graph[OF d]])
  fix u v a assume "lookup (zero_flows (prepare_graph G)) u v = Some a"
  then show "flow a = Some 0" by (auto simp: lookup_zero_flows)
qed

lemma skew_augment: "skew G \<Longrightarrow> augment G path pf = Inr G' \<Longrightarrow> skew G'"
proof (induction G path pf rule: augment.induct)
  case (1 G path_flow)
  then show ?case by simp
next
  case (2 G u v path d)
  from "2.prems"(2) obtain G1 where p: "push_flow G u v d = Inr G1"
    and a: "augment G1 path (Fin d) = Inr G'"
    by (auto split: sum.splits)
  from skew_push_flow[OF "2.prems"(1) p] have "skew G1" .
  from "2.IH"[OF p this a] show ?case .
next
  case (3 G u v path)
  then show ?case by simp
qed

lemma skew_ek_loop:
  assumes "ek_loop s t G max_flow steps = Some r"
  shows "skew G \<longrightarrow> (\<forall>x G'. r = Inr (x, G') \<longrightarrow> skew G')"
  using assms
proof (rule ek_loop.raw_induct[rotated, where P = "\<lambda>s t G max_flow steps r.
          skew G \<longrightarrow> (\<forall>x G'. r = Inr (x, G') \<longrightarrow> skew G')"], goal_cases)
  case (1 f s t G max_flow steps r)
  show ?case
  proof (intro impI allI)
    fix x G' assume sk: "skew G" and r: "r = Inr (x, G')"
    from 1(2) r show "skew G'"
    proof (cases "bfs G s t")
      case (Inl e)
      with 1(2) r show ?thesis by simp
    next
      case (Inr fp)
      obtain found parent where fp: "fp = (found, parent)" by (cases fp)
      show ?thesis
      proof (cases found)
        case False
        with 1(2) r Inr fp sk show ?thesis by simp
      next
        case True
        with 1(2) Inr fp obtain w where w: "walk G s parent t PInf [] = Some w"
          and rest: "(case w of Inl e \<Rightarrow> Some (Inl (e, G))
             | Inr (path_flow, path) \<Rightarrow>
            (case augment G path path_flow of Inl e \<Rightarrow> Some (Inl e)
             | Inr G' \<Rightarrow>
                 f s t G' (ext_add max_flow path_flow)
                   (steps @ [(path, path_flow, ext_add max_flow path_flow)]))) = Some r"
          by (auto simp: bind_eq_Some_conv)
        from rest r obtain path_flow path G1 where
          a: "augment G path path_flow = Inr G1"
          and c: "f s t G1 (ext_add max_flow path_flow)
                   (steps @ [(path, path_flow, ext_add max_flow path_flow)]) = Some r"
          by (auto split: sum.splits prod.splits)
        from skew_augment[OF sk a] have "skew G1" .
        with 1(1)[OF c] r show ?thesis by simp
      qed
    qed
  qed
qed

lemma skew_edmonds_karp:
  assumes "wf_graph G" "edmonds_karp_steps G s t = Some (Inr (x, G'))"
  shows "skew G'"
  using skew_ek_loop[OF assms(2)[unfolded edmonds_karp_steps_def]] skew_reset_prepare[OF assms(1)]
  by simp

lemma skew_dinic_dfs:
  assumes "dinic_dfs t level u pushed G it = Some r"
  shows "skew G \<longrightarrow> (\<forall>fl G' it'. r = Inr (fl, G', it') \<longrightarrow> skew G')"
  using assms
proof (rule dinic_dfs.raw_induct[rotated, where P = "\<lambda>t level u pushed G it r.
          skew G \<longrightarrow> (\<forall>fl G' it'. r = Inr (fl, G', it') \<longrightarrow> skew G')"], goal_cases)
  case (1 f t level u pushed G it r)
  show ?case
  proof (intro impI allI)
    fix fl G' it' assume sk: "skew G" and r: "r = Inr (fl, G', it')"
    show "skew G'"
    proof (cases "u = t")
      case True
      with 1(2) r sk show ?thesis by simp
    next
      case ut: False
      from 1(2) ut r obtain i vs where i: "it u = Some i" and vs: "succs G u = Inr vs"
        by (auto split: option.splits sum.splits)
      show ?thesis
      proof (cases "i < length vs")
        case False
        with 1(2) ut r i vs sk show ?thesis by simp
      next
        case True
        let ?v = "vs ! i" and ?it1 = "it(u \<mapsto> i + 1)"
        from 1(2) ut r i vs True obtain lv lu where lv: "level ?v = Some lv" and lu: "level u = Some lu"
          by (auto simp: Let_def split: option.splits)
        show ?thesis
        proof (cases "lv = lu + 1")
          case False
          with 1(2) ut i vs True lv lu have "f t level u pushed G ?it1 = Some r"
            by (simp add: Let_def)
          from 1(1)[OF this] sk r show ?thesis by simp
        next
          case lev: True
          from 1(2) ut r i vs True lv lu lev obtain res where res: "residual G u ?v = Inr res"
            by (auto simp: Let_def split: sum.splits)
          show ?thesis
          proof (cases "res > 0")
            case False
            with 1(2) ut i vs True lv lu lev res have "f t level u pushed G ?it1 = Some r"
              by (simp add: Let_def)
            from 1(1)[OF this] sk r show ?thesis by simp
          next
            case pos: True
            with 1(2) ut i vs True lv lu lev res obtain r2 where
              c: "f t level ?v (ext_min pushed (Fin res)) G ?it1 = Some r2"
              and rest: "(case r2 of Inl e \<Rightarrow> Some (Inl e)
                   | Inr (fl, G2, it2) \<Rightarrow>
                       if ext_pos fl
                       then (case fl of PInf \<Rightarrow> Some (Inl (InfiniteFlow, G2))
                             | Fin d \<Rightarrow>
                            (case push_flow G2 u ?v d of Inl e \<Rightarrow> Some (Inl e)
                             | Inr G3 \<Rightarrow> Some (Inr (fl, G3, it2))))
                       else f t level u pushed G2 it2) = Some r"
              by (auto simp: Let_def bind_eq_Some_conv)
            from rest r obtain fl2 G2 it2 where r2: "r2 = Inr (fl2, G2, it2)"
              by (auto split: sum.splits)
            from 1(1)[OF c] sk r2 have sk2: "skew G2" by simp
            show ?thesis
            proof (cases "ext_pos fl2")
              case False
              with rest r2 have "f t level u pushed G2 it2 = Some r" by simp
              from 1(1)[OF this] sk2 r show ?thesis by simp
            next
              case True
              with rest r2 r obtain d where "push_flow G2 u ?v d = Inr G'"
                by (auto split: ext.splits sum.splits)
              from skew_push_flow[OF sk2 this] show ?thesis .
            qed
          qed
        qed
      qed
    qed
  qed
qed

lemma skew_blocking_flow:
  assumes "blocking_flow s t level G it max_flow = Some r"
  shows "skew G \<longrightarrow> (\<forall>x G'. r = Inr (x, G') \<longrightarrow> skew G')"
  using assms
proof (rule blocking_flow.raw_induct[rotated, where P = "\<lambda>s t level G it max_flow r.
          skew G \<longrightarrow> (\<forall>x G'. r = Inr (x, G') \<longrightarrow> skew G')"], goal_cases)
  case (1 f s t level G it max_flow r)
  show ?case
  proof (intro impI allI)
    fix x G' assume sk: "skew G" and r: "r = Inr (x, G')"
    from 1(2) obtain r1 where d: "dinic_dfs t level s PInf G it = Some r1"
      and rest: "(case r1 of Inl e \<Rightarrow> Some (Inl e)
         | Inr (pushed, G2, it2) \<Rightarrow>
             if \<not> ext_pos pushed then Some (Inr (max_flow, G2))
             else f s t level G2 it2 (ext_add max_flow pushed)) = Some r"
      by (auto simp: bind_eq_Some_conv)
    from rest r obtain pushed G2 it2 where r1: "r1 = Inr (pushed, G2, it2)"
      by (auto split: sum.splits)
    from skew_dinic_dfs[OF d] sk r1 have sk2: "skew G2" by simp
    show "skew G'"
    proof (cases "ext_pos pushed")
      case False
      with rest r1 r sk2 show ?thesis by simp
    next
      case True
      with rest r1 have "f s t level G2 it2 (ext_add max_flow pushed) = Some r" by simp
      from 1(1)[OF this] sk2 r show ?thesis by simp
    qed
  qed
qed

lemma skew_dinic_loop:
  assumes "dinic_loop s t G max_flow = Some r"
  shows "skew G \<longrightarrow> (\<forall>x G'. r = Inr (x, G') \<longrightarrow> skew G')"
  using assms
proof (rule dinic_loop.raw_induct[rotated, where P = "\<lambda>s t G max_flow r.
          skew G \<longrightarrow> (\<forall>x G'. r = Inr (x, G') \<longrightarrow> skew G')"], goal_cases)
  case (1 f s t G max_flow r)
  show ?case
  proof (intro impI allI)
    fix x G' assume sk: "skew G" and r: "r = Inr (x, G')"
    from 1(2) obtain r0 where l0: "bfs_level G s = Some r0"
      and rest0: "(case r0 of Inl e \<Rightarrow> Some (Inl (e, G))
       | Inr level \<Rightarrow>
          (case level t of None \<Rightarrow> Some (Inl (KeyError t, G))
           | Some lt \<Rightarrow>
               if lt < 0 then Some (Inr (max_flow, G))
               else Option.bind (blocking_flow s t level G (node_dict G 0) max_flow) (\<lambda>res2.
                    case res2 of Inl e \<Rightarrow> Some (Inl e)
                    | Inr (max_flow2, G2) \<Rightarrow> f s t G2 max_flow2))) = Some r"
      by (auto simp: bind_eq_Some_conv)
    from rest0 r obtain level where r0: "r0 = Inr level" by (cases r0) auto
    from rest0 r r0 obtain lt where lt: "level t = Some lt" by (cases "level t") auto
    from rest0 r0 lt have
      rest: "(if lt < 0 then Some (Inr (max_flow, G))
               else Option.bind (blocking_flow s t level G (node_dict G 0) max_flow) (\<lambda>res2.
                    case res2 of Inl e \<Rightarrow> Some (Inl e)
                    | Inr (max_flow2, G2) \<Rightarrow> f s t G2 max_flow2)) = Some r"
      by simp
    show "skew G'"
    proof (cases "lt < 0")
      case True
      with rest r sk show ?thesis by simp
    next
      case False
      with rest obtain r2 where b: "blocking_flow s t level G (node_dict G 0) max_flow = Some r2"
        and rest2: "(case r2 of Inl e \<Rightarrow> Some (Inl e)
                    | Inr (max_flow2, G2) \<Rightarrow> f s t G2 max_flow2) = Some r"
        by (auto simp: bind_eq_Some_conv)
      from rest2 r obtain mf2 G2 where r2: "r2 = Inr (mf2, G2)" and c: "f s t G2 mf2 = Some r"
        by (auto split: sum.splits)
      from skew_blocking_flow[OF b] sk r2 have "skew G2" by simp
      with 1(1)[OF c] r show ?thesis by simp
    qed
  qed
qed

lemma skew_dinic_apply:
  assumes "wf_graph G" "no_flow G" "dinic_apply G s t = Some (Inr (x, G'))"
  shows "skew G'"
  using skew_dinic_loop[OF assms(3)[unfolded dinic_apply_def]] skew_prepare_graph[OF assms(1,2)]
  by simp

lemma skew_push:
  assumes "push u v (G, excess) = Inr (b, G', excess')" "skew G"
  shows "skew G'"
proof -
  from assms(1) obtain xu r where xu: "excess u = Some xu" and r: "residual G u v = Inr r"
    by (auto simp: push_def split: option.splits sum.splits)
  show ?thesis
  proof (cases "min xu r \<le> 0")
    case True
    with assms xu r show ?thesis by (simp add: push_def)
  next
    case False
    with assms(1) xu r have "push_flow G u v (min xu r) = Inr G'"
      by (auto simp: push_def Let_def split: sum.splits option.splits)
    from skew_push_flow[OF assms(2) this] show ?thesis .
  qed
qed

lemma skew_discharge:
  "discharge s t u vs st = Inr st' \<Longrightarrow> skew (fst st) \<Longrightarrow> skew (fst st')"
proof (induction s t u vs st rule: discharge.induct)
  case (1 s t u st)
  then show ?case by simp
next
  case (2 s t u v vs G excess active)
  from "2.prems"(1) obtain pushed G2 excess2 where
    p: "push u v (G, excess) = Inr (pushed, G2, excess2)"
    by (auto split: sum.splits)
  from skew_push[OF p] "2.prems"(2) have sk2: "skew G2" by simp
  show ?case
  proof (cases pushed)
    case False
    with "2.prems"(1) p have "discharge s t u vs (G2, excess2, active) = Inr st'" by simp
    from "2.IH"(2)[OF p refl refl False this] sk2 show ?thesis by simp
  next
    case True
    let ?a = "if v \<noteq> s \<and> v \<noteq> t
                    then (case excess2 v of None \<Rightarrow> Inl (KeyError v, G2)
                          | Some xv \<Rightarrow>
                              Inr (if xv > 0 \<and> v \<notin> set active then active @ [v] else active))
                    else Inr active"
    from "2.prems"(1) p True obtain active2 xu where a2: "?a = Inr active2"
      and xu: "excess2 u = Some xu"
      by (auto split: sum.splits option.splits)
    show ?thesis
    proof (cases "xu = 0")
      case z: True
      with "2.prems"(1) p True a2 xu have "st' = (G2, excess2, active2)" by simp
      with sk2 show ?thesis by simp
    next
      case nz: False
      with "2.prems"(1) p True a2 xu
      have "discharge s t u vs (G2, excess2, active2) = Inr st'" by simp
      from "2.IH"(1)[OF p refl refl True a2 xu nz this] sk2 show ?thesis by simp
    qed
  qed
qed

lemma skew_pr_round:
  assumes "pr_round s t st = Inr st'" "skew (pr_graph st)"
  shows "skew (pr_graph st')"
proof -
  let ?u = "pr_active st ! pr_i st"
  from assms(1) obtain old_h vs where "pr_height st ?u = Some old_h"
    and vs: "succs (pr_graph st) ?u = Inr vs"
    by (auto simp: pr_round_def Let_def split: option.splits sum.splits)
  with assms(1) obtain G2 excess2 active2 where
    d: "discharge s t ?u vs (pr_graph st, pr_excess st, pr_active st) = Inr (G2, excess2, active2)"
    by (auto simp: pr_round_def Let_def split: sum.splits)
  from skew_discharge[OF d] assms(2) have "skew G2" by simp
  moreover from assms(1) d vs \<open>pr_height st ?u = Some old_h\<close> have "pr_graph st' = G2"
    by (auto simp: pr_round_def Let_def split: option.splits sum.splits if_splits)
  ultimately show ?thesis by simp
qed

lemma skew_pr_loop:
  assumes "pr_loop s t st = Some r"
  shows "skew (pr_graph st) \<longrightarrow> (\<forall>st'. r = Inr st' \<longrightarrow> skew (pr_graph st'))"
  using assms
proof (rule pr_loop.raw_induct[rotated, where P = "\<lambda>s t st r.
          skew (pr_graph st) \<longrightarrow> (\<forall>st'. r = Inr st' \<longrightarrow> skew (pr_graph st'))"], goal_cases)
  case (1 f s t st r)
  show ?case
  proof (intro impI allI)
    fix st' assume sk: "skew (pr_graph st)" and r: "r = Inr st'"
    show "skew (pr_graph st')"
    proof (cases "pr_i st < length (pr_active st)")
      case False
      with 1(2) r sk show ?thesis by simp
    next
      case True
      with 1(2) r obtain st2 where rd: "pr_round s t st = Inr st2" and c: "f s t st2 = Some r"
        by (auto split: sum.splits)
      from skew_pr_round[OF rd sk] 1(1)[OF c] r show ?thesis by simp
    qed
  qed
qed

lemma set_flow_as_add_flow:
  assumes "lookup G u v = Some a" "flow a = Some 0"
  shows "set_flow G u v c = add_flow G u v c"
  using assms by (simp add: set_flow_def add_flow_def edge_attrs_lookup get_flow_lookup)

lemma skew_saturate:
  "skew G \<Longrightarrow> distinct vs \<Longrightarrow> (\<And>v. v \<in> set vs \<Longrightarrow> \<exists>a. lookup G s v = Some a \<and> flow a = Some 0) \<Longrightarrow>
   saturate s vs (G, excess) = Inr (G', excess') \<Longrightarrow> skew G'"
proof (induction vs arbitrary: G excess)
  case Nil
  then show ?case by simp
next
  case (Cons v vs)
  from Cons.prems(3)[of v] obtain a where a: "lookup G s v = Some a" "flow a = Some 0" by auto
  from Cons.prems(4) obtain cap G1 G2 x where
    c: "get_capacity G s v = Inr cap" and s1: "set_flow G s v cap = Inr G1"
    and s2: "add_flow G1 v s (- cap) = Inr G2" and x: "excess v = Some x"
    and rest: "saturate s vs (G2, excess(v \<mapsto> x + cap)) = Inr (G', excess')"
    by (auto split: sum.splits option.splits)
  from s1 have "add_flow G s v cap = Inr G1" by (simp add: set_flow_as_add_flow[OF a])
  with s2 have p: "push_flow G s v cap = Inr G2" by (simp add: push_flow_def)
  from skew_push_flow[OF Cons.prems(1) p] have sk2: "skew G2" .
  have keep: "\<exists>a. lookup G2 s y = Some a \<and> flow a = Some 0" if y: "y \<in> set vs" for y
  proof -
    from y Cons.prems(2) have ne: "y \<noteq> v" by auto
    from p have "lookup G2 s y = lookup G s y"
    proof (rule push_flow_lookup)
      assume "\<And>x y. x \<noteq> s \<or> y \<noteq> v \<Longrightarrow> x \<noteq> v \<or> y \<noteq> s \<Longrightarrow> lookup G2 x y = lookup G x y"
      then show ?thesis using ne by auto
    qed
    with Cons.prems(3)[of y] y show ?thesis by simp
  qed
  from Cons.prems(2) have "distinct vs" by simp
  from Cons.IH[OF sk2 this keep rest] show ?case .
qed

lemma skew_pr_init:
  assumes "wf_graph G" "prepared G" "\<And>u v a. lookup G u v = Some a \<Longrightarrow> flow a = Some 0"
    "pr_init G s t = Inr st"
  shows "skew (pr_graph st)"
proof -
  from assms(4) obtain vs G2 excess2 where vs: "succs G s = Inr vs"
    and sat: "saturate s vs (G, node_dict G 0) = Inr (G2, excess2)"
    and g: "pr_graph st = G2"
    by (auto simp: pr_init_def Let_def split: sum.splits)
  from vs obtain a where a: "map_of G s = Some a" "vs = map fst a"
    by (auto simp: succs_def adj_def split: option.splits)
  from assms(1) a have d: "distinct vs" by (auto simp: wf_graph_iff)
  have z: "\<exists>e. lookup G s v = Some e \<and> flow e = Some 0" if "v \<in> set vs" for v
  proof -
    from that a have "v \<in> fst ` set a" by simp
    from lookup_succ[OF a(1) this] obtain e where "lookup G s v = Some e" by blast
    with assms(3) show ?thesis by blast
  qed
  from skew_saturate[OF skew_zero[OF assms(2,3)] d z sat] g show ?thesis by simp
qed

lemma skew_push_relabel:
  assumes "wf_graph G" "no_flow G" "push_relabel_apply G s t = Some (Inr (x, G'))"
  shows "skew G'"
proof -
  from assms(1) have d: "distinct (nodes G)" by (simp add: wf_graph_iff)
  have p: "prepared (prepare_graph G)" by (rule prepared_prepare_graph[OF d])
  have z: "flow a = Some 0" if l: "lookup (prepare_graph G) u v = Some a" for u v a
  proof -
    from p l have "flow a \<noteq> None" unfolding prepared_def by blast
    moreover from no_flow_prepare_graph[OF assms(2)] l have "flow a = None \<or> flow a = Some 0"
      unfolding no_flow_def by blast
    ultimately show ?thesis by (elim disjE) simp_all
  qed
  from assms(3) obtain st0 where i: "pr_init (prepare_graph G) s t = Inr st0"
    by (auto simp: push_relabel_apply_def split: sum.splits)
  from skew_pr_init[OF wf_prepare_graph(1)[OF assms(1)] p z i] have sk0: "skew (pr_graph st0)" .
  from assms(3) i obtain r where l: "pr_loop s t st0 = Some r"
    and rest: "(case r of Inl e \<Rightarrow> Some (Inl e)
            | Inr st \<Rightarrow>
               (case predecessors (pr_graph st) t of Inl e \<Rightarrow> Some (Inl (e, pr_graph st))
                | Inr us \<Rightarrow>
                   (case flow_into (pr_graph st) t us 0 of Inl e \<Rightarrow> Some (Inl (e, pr_graph st))
                    | Inr f \<Rightarrow> Some (Inr (f, pr_graph st))))) = Some (Inr (x, G'))"
    by (auto simp: push_relabel_apply_def bind_eq_Some_conv)
  from rest obtain st where r: "r = Inr st" and g: "G' = pr_graph st"
    by (auto split: sum.splits)
  from skew_pr_loop[OF l] sk0 r g show ?thesis by simp
qed

lemma no_flowI:
  assumes "list_all (\<lambda>ua. list_all (\<lambda>ve. flow (snd ve) = None \<or> flow (snd ve) = Some 0) (snd ua)) G"
  shows "no_flow G"
  unfolding no_flow_def
proof (intro allI impI)
  fix u v e assume "lookup G u v = Some e"
  then obtain a where "(u, a) \<in> set G" "(v, e) \<in> set a"
    by (auto simp: lookup_def split: option.splits dest: map_of_SomeD)
  with assms show "flow e = None \<or> flow e = Some 0" unfolding list_all_iff by fastforce
qed

text \<open>
  What holds of skew symmetry. When a solver returns, the graph it leaves is skew
  symmetric (every edge has its reverse edge, and \<open>flow(u, v) = - flow(v, u)\<close>): for
  \<open>edmonds_karp_steps\<close> on every well-formed graph, since it sets every flow to 0 first;
  for \<open>dinic_apply\<close> and \<open>push_relabel_apply\<close> on a graph as it is built, whose edges carry
  no flow or the flow 0. Every push is the pair of statements \<open>push_flow\<close>: it keeps a skew
  symmetric graph skew symmetric, and it changes \<open>flow(u, v)\<close> by \<open>d\<close> and \<open>flow(v, u)\<close> by
  \<open>- d\<close>.
\<close>

theorem skew_symmetry:
  assumes "wf_graph G"
  shows "(edmonds_karp_steps G s t = Some (Inr (r1, G1)) \<longrightarrow> skew G1)
       \<and> (no_flow G \<and> dinic_apply G s t = Some (Inr (r2, G2)) \<longrightarrow> skew G2)
       \<and> (no_flow G \<and> push_relabel_apply G s t = Some (Inr (r3, G3)) \<longrightarrow> skew G3)
       \<and> (skew H \<and> push_flow H u v d = Inr H' \<longrightarrow> skew H')
       \<and> (push_flow H u v d = Inr H' \<and> u \<noteq> v \<longrightarrow>
            (\<exists>f g. get_flow H u v = Inr f \<and> get_flow H v u = Inr g
                 \<and> get_flow H' u v = Inr (f + d) \<and> get_flow H' v u = Inr (g - d)))"
  using assms
  by (auto intro: skew_edmonds_karp skew_dinic_apply skew_push_relabel skew_push_flow
      dest: push_flow_changes)

theorem skew_symmetry_witness:
  "wf_graph line \<and> no_flow line
   \<and> edmonds_karp_steps line ''S'' ''T''
       = Some (Inr (([([(''S'', ''A''), (''A'', ''T'')], Fin 3, Fin 3)], Fin 3), line_solved))
   \<and> dinic_apply line ''S'' ''T'' = Some (Inr (Fin 3, line_solved))
   \<and> push_relabel_apply line ''S'' ''T'' = Some (Inr (3, line_solved))
   \<and> skew line_solved
   \<and> push_flow line_prepared ''A'' ''T'' 3 \<noteq> Inl (KeyError ''A'', line_prepared)"
proof -
  have h: "wf_graph line" by code_simp
  have n: "no_flow line" by (rule no_flowI) code_simp
  have e: "edmonds_karp_steps line ''S'' ''T''
       = Some (Inr (([([(''S'', ''A''), (''A'', ''T'')], Fin 3, Fin 3)], Fin 3), line_solved))"
    by code_simp
  have d: "dinic_apply line ''S'' ''T'' = Some (Inr (Fin 3, line_solved))" by code_simp
  have p: "push_relabel_apply line ''S'' ''T'' = Some (Inr (3, line_solved))" by code_simp
  have q: "push_flow line_prepared ''A'' ''T'' 3 \<noteq> Inl (KeyError ''A'', line_prepared)" by code_simp
  from skew_symmetry[OF h, of "''S''" "''T''" _ line_solved] e have "skew line_solved" by blast
  with h n e d p q show ?thesis by simp
qed

lemma not_skew_line_after_push_relabel: "\<not> skew line_after_push_relabel"
proof
  assume sk: "skew line_after_push_relabel"
  have 1: "lookup line_after_push_relabel ''S'' ''A'' = Some \<lparr>capacity = 5, flow = Some 0\<rparr>"
    by code_simp
  have 2: "lookup line_after_push_relabel ''A'' ''S'' = Some \<lparr>capacity = 0, flow = Some (- 3)\<rparr>"
    by code_simp
  from sk 1 obtain b f where "lookup line_after_push_relabel ''A'' ''S'' = Some b"
    "flow \<lparr>capacity = 5, flow = Some 0\<rparr> = Some f" "flow b = Some (- f)"
    unfolding skew_def by blast
  with 2 show False by simp
qed

text \<open>
  C8, on a prepared graph that carries a flow. \<open>line_solved\<close> is a fixed point of
  \<open>prepare_graph\<close> and is skew symmetric: 3 on \<open>S \<rightarrow> A\<close> and \<open>A \<rightarrow> T\<close>, -3 on the reverse
  edges. \<open>push_relabel_apply\<close> saturates the edges out of the source with
  \<open>G[s][v]['flow'] = cap; G[v][s]['flow'] -= cap\<close>: an assignment on one edge and a
  subtraction on the other. It returns 3 and leaves 0 on \<open>S \<rightarrow> A\<close> against -3 on
  \<open>A \<rightarrow> S\<close>. On the same graph \<open>edmonds_karp_steps\<close> and \<open>dinic_apply\<close> leave the skew
  symmetric \<open>line_solved\<close>.
\<close>

theorem push_relabel_breaks_skew_symmetry:
  "wf_graph line_solved \<and> prepare_graph line_solved = line_solved
   \<and> get_flow line_solved ''S'' ''A'' = Inr 3 \<and> get_flow line_solved ''A'' ''S'' = Inr (- 3)
   \<and> get_flow line_solved ''A'' ''T'' = Inr 3 \<and> get_flow line_solved ''T'' ''A'' = Inr (- 3)
   \<and> push_relabel_apply line_solved ''S'' ''T'' = Some (Inr (3, line_after_push_relabel))
   \<and> get_flow line_after_push_relabel ''S'' ''A'' = Inr 0
   \<and> get_flow line_after_push_relabel ''A'' ''S'' = Inr (- 3)
   \<and> edmonds_karp_steps line_solved ''S'' ''T''
       = Some (Inr (([([(''S'', ''A''), (''A'', ''T'')], Fin 3, Fin 3)], Fin 3), line_solved))
   \<and> dinic_apply line_solved ''S'' ''T'' = Some (Inr (Fin 0, line_solved))"
  by code_simp

section \<open>\<open>float('inf')\<close> never reaches an edge\<close>

text \<open>
  The model cannot hold an infinite flow on an edge and has the error \<open>InfiniteFlow\<close>
  in its place. The solvers never get there: a path that \<open>edmonds_karp_steps\<close> augments
  has an edge, so its bottleneck is finite, and a recursive call of \<open>dfs\<close> in
  \<open>dinic_apply\<close> is given a finite amount and returns a finite one.
\<close>

lemma ext_min_Fin: "\<exists>d. ext_min pf (Fin r) = Fin d"
  by (cases pf) simp_all

lemma walk_finite:
  assumes "walk G s parent v path_flow path = Some r"
  shows "(path \<noteq> [] \<longrightarrow> (\<exists>d. path_flow = Fin d)) \<longrightarrow>
         (\<forall>pf' path'. r = Inr (pf', path') \<longrightarrow> path' \<noteq> [] \<longrightarrow> (\<exists>d. pf' = Fin d))"
  using assms
proof (rule walk.raw_induct[rotated, where P = "\<lambda>G s parent v path_flow path r.
          (path \<noteq> [] \<longrightarrow> (\<exists>d. path_flow = Fin d)) \<longrightarrow>
          (\<forall>pf' path'. r = Inr (pf', path') \<longrightarrow> path' \<noteq> [] \<longrightarrow> (\<exists>d. pf' = Fin d))"], goal_cases)
  case (1 f G s parent v path_flow path r)
  show ?case
  proof (intro impI allI)
    fix pf' path'
    assume h: "path \<noteq> [] \<longrightarrow> (\<exists>d. path_flow = Fin d)" and r: "r = Inr (pf', path')"
      and ne: "path' \<noteq> []"
    show "\<exists>d. pf' = Fin d"
    proof (cases "v = s")
      case True
      with 1(2) r h ne show ?thesis by auto
    next
      case False
      with 1(2) r obtain u res where "parent v = Some u" "residual G u v = Inr res"
        and c: "f G s parent u (ext_min path_flow (Fin res)) ((u, v) # path) = Some r"
        by (auto split: option.splits sum.splits)
      from 1(1)[OF c] r ne ext_min_Fin[of path_flow res] show ?thesis by auto
    qed
  qed
qed

lemma augment_no_infinite:
  "path \<noteq> [] \<longrightarrow> (\<exists>d. pf = Fin d) \<Longrightarrow> augment G path pf = Inl (e, G') \<Longrightarrow> e \<noteq> InfiniteFlow"
proof (induction G path pf rule: augment.induct)
  case (1 G path_flow)
  then show ?case by simp
next
  case (2 G u v path d)
  show ?case
  proof (cases "push_flow G u v d")
    case (Inl x)
    with "2.prems"(2) have "push_flow G u v d = Inl (e, G')" by simp
    then show ?thesis
      by (auto simp: push_flow_def add_flow_def get_flow_def edge_attrs_def adj_def
          split: sum.splits option.splits)
  next
    case (Inr G1)
    with "2.prems"(2) have "augment G1 path (Fin d) = Inl (e, G')" by simp
    from "2.IH"[OF Inr _ this] show ?thesis by simp
  qed
next
  case (3 G u v path)
  then show ?case by simp
qed

lemma bfs_scan_no_infinite: "bfs_scan G t u vs st = Inl e \<Longrightarrow> e \<noteq> InfiniteFlow"
proof (induction G t u vs st rule: bfs_scan.induct)
  case (1 G t u st)
  then show ?case by simp
next
  case (2 G t u v vs visited parent q)
  then show ?case
    by (auto simp: get_capacity_def get_flow_def edge_attrs_def adj_def
        split: sum.splits option.splits if_splits)
qed

lemma bfs_loop_no_infinite: "bfs_loop G t st = Inl e \<Longrightarrow> e \<noteq> InfiniteFlow"
proof (induction G t st rule: bfs_loop.induct)
  case (1 G t visited parent)
  then show ?case by simp
next
  case (2 G t visited parent u q)
  then show ?case
    by (auto simp: succs_def adj_def dest: bfs_scan_no_infinite
        split: sum.splits option.splits if_splits prod.splits)
qed

lemma bfs_no_infinite: "bfs G s t = Inl e \<Longrightarrow> e \<noteq> InfiniteFlow"
  unfolding bfs_def by (rule bfs_loop_no_infinite)

lemma walk_no_infinite:
  assumes "walk G s parent v path_flow path = Some r"
  shows "\<forall>e. r = Inl e \<longrightarrow> e \<noteq> InfiniteFlow"
  using assms
proof (rule walk.raw_induct[rotated, where P = "\<lambda>G s parent v path_flow path r.
          \<forall>e. r = Inl e \<longrightarrow> e \<noteq> InfiniteFlow"], goal_cases)
  case (1 f G s parent v path_flow path r)
  show ?case
  proof (cases "v = s")
    case True
    with 1(2) show ?thesis by auto
  next
    case False
    show ?thesis
    proof (cases "parent v")
      case None
      with 1(2) False show ?thesis by auto
    next
      case (Some u)
      show ?thesis
      proof (cases "residual G u v")
        case (Inl x)
        with 1(2) False Some show ?thesis
          by (auto simp: residual_def get_capacity_def get_flow_def edge_attrs_def adj_def
              split: sum.splits option.splits)
      next
        case (Inr res)
        with 1(2) False Some
        have "f G s parent u (ext_min path_flow (Fin res)) ((u, v) # path) = Some r" by simp
        from 1(1)[OF this] show ?thesis .
      qed
    qed
  qed
qed

lemma ek_loop_no_infinite:
  assumes "ek_loop s t G max_flow steps = Some r"
  shows "\<forall>G'. r \<noteq> Inl (InfiniteFlow, G')"
  using assms
proof (rule ek_loop.raw_induct[rotated, where P = "\<lambda>s t G max_flow steps r.
          \<forall>G'. r \<noteq> Inl (InfiniteFlow, G')"], goal_cases)
  case (1 f s t G max_flow steps r)
  show ?case
  proof (cases "bfs G s t")
    case (Inl e)
    with 1(2) bfs_no_infinite[OF Inl] show ?thesis by auto
  next
    case (Inr fp)
    obtain found parent where fp: "fp = (found, parent)" by (cases fp)
    show ?thesis
    proof (cases found)
      case False
      with 1(2) Inr fp show ?thesis by auto
    next
      case True
      with 1(2) Inr fp obtain w where w: "walk G s parent t PInf [] = Some w"
        and rest: "(case w of Inl e \<Rightarrow> Some (Inl (e, G))
           | Inr (path_flow, path) \<Rightarrow>
          (case augment G path path_flow of Inl e \<Rightarrow> Some (Inl e)
           | Inr G' \<Rightarrow>
               f s t G' (ext_add max_flow path_flow)
                 (steps @ [(path, path_flow, ext_add max_flow path_flow)]))) = Some r"
        by (auto simp: bind_eq_Some_conv)
      show ?thesis
      proof (cases w)
        case (Inl e)
        with rest walk_no_infinite[OF w] show ?thesis by auto
      next
        case wr: (Inr pp)
        obtain path_flow path where pp: "pp = (path_flow, path)" by (cases pp)
        from walk_finite[OF w] wr pp have fin: "path \<noteq> [] \<longrightarrow> (\<exists>d. path_flow = Fin d)" by simp
        show ?thesis
        proof (cases "augment G path path_flow")
          case (Inl eg)
          obtain e G1 where eg: "eg = (e, G1)" by (cases eg)
          from augment_no_infinite[OF fin Inl[unfolded eg]] rest wr pp Inl eg show ?thesis by auto
        next
          case (Inr G1)
          with rest wr pp have "f s t G1 (ext_add max_flow path_flow)
                 (steps @ [(path, path_flow, ext_add max_flow path_flow)]) = Some r" by simp
          from 1(1)[OF this] show ?thesis .
        qed
      qed
    qed
  qed
qed

lemma edmonds_karp_no_infinite: "edmonds_karp_steps G s t \<noteq> Some (Inl (InfiniteFlow, G'))"
  using ek_loop_no_infinite[of s t "reset_flows (prepare_graph G)" "Fin 0" "[]"]
  by (cases "edmonds_karp_steps G s t") (auto simp: edmonds_karp_steps_def)

lemma succs_no_infinite: "succs G u = Inl e \<Longrightarrow> e \<noteq> InfiniteFlow"
  by (auto simp: succs_def adj_def split: sum.splits option.splits)

lemma residual_no_infinite: "residual G u v = Inl e \<Longrightarrow> e \<noteq> InfiniteFlow"
  by (auto simp: residual_def get_capacity_def get_flow_def edge_attrs_def adj_def
      split: sum.splits option.splits)

lemma push_flow_no_infinite: "push_flow G u v d = Inl (e, G') \<Longrightarrow> e \<noteq> InfiniteFlow"
  by (auto simp: push_flow_def add_flow_def get_flow_def edge_attrs_def adj_def
      split: sum.splits option.splits)

lemma dinic_dfs_finite:
  assumes "dinic_dfs t level u pushed G it = Some r"
  shows "(\<forall>G'. r \<noteq> Inl (InfiniteFlow, G'))
       \<and> ((\<exists>p. pushed = Fin p) \<longrightarrow> (\<forall>fl G' it'. r = Inr (fl, G', it') \<longrightarrow> (\<exists>d. fl = Fin d)))"
  using assms
proof (rule dinic_dfs.raw_induct[rotated, where P = "\<lambda>t level u pushed G it r.
        (\<forall>G'. r \<noteq> Inl (InfiniteFlow, G'))
       \<and> ((\<exists>p. pushed = Fin p) \<longrightarrow> (\<forall>fl G' it'. r = Inr (fl, G', it') \<longrightarrow> (\<exists>d. fl = Fin d)))"],
    goal_cases)
  case (1 f t level u pushed G it r)
  show ?case
  proof (cases "u = t")
    case True
    with 1(2) show ?thesis by auto
  next
    case ut: False
    show ?thesis
    proof (cases "it u")
      case None
      with 1(2) ut show ?thesis by auto
    next
      case (Some i)
      show ?thesis
      proof (cases "succs G u")
        case (Inl e)
        with 1(2) ut Some succs_no_infinite[OF Inl] show ?thesis by auto
      next
        case (Inr vs)
        show ?thesis
        proof (cases "i < length vs")
          case False
          with 1(2) ut Some Inr show ?thesis by auto
        next
          case True
          let ?v = "vs ! i" and ?it1 = "it(u \<mapsto> i + 1)"
          show ?thesis
          proof (cases "level ?v")
            case None
            with 1(2) ut Some Inr True show ?thesis by (auto simp: Let_def)
          next
            case lv: (Some lv)
            show ?thesis
            proof (cases "level u")
              case None
              with 1(2) ut Some Inr True lv show ?thesis by (auto simp: Let_def)
            next
              case lu: (Some lu)
              show ?thesis
              proof (cases "lv = lu + 1")
                case False
                with 1(2) ut Some Inr True lv lu
                have "f t level u pushed G ?it1 = Some r" by (simp add: Let_def)
                from 1(1)[OF this] show ?thesis .
              next
                case lev: True
                show ?thesis
                proof (cases "residual G u ?v")
                  case (Inl e)
                  with 1(2) ut Some Inr True lv lu lev residual_no_infinite[OF Inl]
                  show ?thesis by (auto simp: Let_def)
                next
                  case res: (Inr res)
                  show ?thesis
                  proof (cases "res > 0")
                    case False
                    with 1(2) ut Some Inr True lv lu lev res
                    have "f t level u pushed G ?it1 = Some r" by (simp add: Let_def)
                    from 1(1)[OF this] show ?thesis .
                  next
                    case pos: True
                    with 1(2) ut Some Inr True lv lu lev res obtain r2 where
                      c: "f t level ?v (ext_min pushed (Fin res)) G ?it1 = Some r2"
                      and rest: "(case r2 of Inl e \<Rightarrow> Some (Inl e)
                           | Inr (fl, G2, it2) \<Rightarrow>
                               if ext_pos fl
                               then (case fl of PInf \<Rightarrow> Some (Inl (InfiniteFlow, G2))
                                     | Fin d \<Rightarrow>
                                    (case push_flow G2 u ?v d of Inl e \<Rightarrow> Some (Inl e)
                                     | Inr G3 \<Rightarrow> Some (Inr (fl, G3, it2))))
                               else f t level u pushed G2 it2) = Some r"
                      by (auto simp: Let_def bind_eq_Some_conv)
                    from 1(1)[OF c] ext_min_Fin[of pushed res]
                    have n2: "\<forall>G'. r2 \<noteq> Inl (InfiniteFlow, G')"
                      and f2: "\<forall>fl G' it'. r2 = Inr (fl, G', it') \<longrightarrow> (\<exists>d. fl = Fin d)"
                      by blast+
                    show ?thesis
                    proof (cases r2)
                      case (Inl eg)
                      with rest n2 show ?thesis by auto
                    next
                      case r2: (Inr x)
                      obtain fl2 G2 it2 where x: "x = (fl2, G2, it2)" by (cases x)
                      from f2 r2 x obtain d where d: "fl2 = Fin d" by blast
                      show ?thesis
                      proof (cases "ext_pos fl2")
                        case False
                        with rest r2 x have "f t level u pushed G2 it2 = Some r" by simp
                        from 1(1)[OF this] show ?thesis .
                      next
                        case True
                        show ?thesis
                        proof (cases "push_flow G2 u ?v d")
                          case (Inl eg)
                          obtain e G3 where eg: "eg = (e, G3)" by (cases eg)
                          from push_flow_no_infinite[OF Inl[unfolded eg]] rest r2 x d True Inl eg
                          show ?thesis by auto
                        next
                          case (Inr G3)
                          with rest r2 x d True show ?thesis by auto
                        qed
                      qed
                    qed
                  qed
                qed
              qed
            qed
          qed
        qed
      qed
    qed
  qed
qed

lemma blocking_flow_no_infinite:
  assumes "blocking_flow s t level G it max_flow = Some r"
  shows "\<forall>G'. r \<noteq> Inl (InfiniteFlow, G')"
  using assms
proof (rule blocking_flow.raw_induct[rotated, where P = "\<lambda>s t level G it max_flow r.
          \<forall>G'. r \<noteq> Inl (InfiniteFlow, G')"], goal_cases)
  case (1 f s t level G it max_flow r)
  from 1(2) obtain r1 where d: "dinic_dfs t level s PInf G it = Some r1"
    and rest: "(case r1 of Inl e \<Rightarrow> Some (Inl e)
       | Inr (pushed, G2, it2) \<Rightarrow>
           if \<not> ext_pos pushed then Some (Inr (max_flow, G2))
           else f s t level G2 it2 (ext_add max_flow pushed)) = Some r"
    by (auto simp: bind_eq_Some_conv)
  from dinic_dfs_finite[OF d] have n1: "\<forall>G'. r1 \<noteq> Inl (InfiniteFlow, G')" by blast
  show ?case
  proof (cases r1)
    case (Inl e)
    with rest n1 show ?thesis by auto
  next
    case (Inr x)
    obtain pushed G2 it2 where x: "x = (pushed, G2, it2)" by (cases x)
    show ?thesis
    proof (cases "ext_pos pushed")
      case False
      with rest Inr x show ?thesis by auto
    next
      case True
      with rest Inr x have "f s t level G2 it2 (ext_add max_flow pushed) = Some r" by simp
      from 1(1)[OF this] show ?thesis .
    qed
  qed
qed

lemma level_scan_no_infinite: "level_scan G u vs st = Inl e \<Longrightarrow> e \<noteq> InfiniteFlow"
proof (induction G u vs st rule: level_scan.induct)
  case (1 G u st)
  then show ?case by simp
next
  case (2 G u v vs level q)
  then show ?case
    by (auto dest: residual_no_infinite split: option.splits sum.splits if_splits)
qed

lemma bfs_level_loop_no_infinite:
  assumes "bfs_level_loop G level q = Some r"
  shows "r \<noteq> Inl InfiniteFlow"
  using assms
proof (rule bfs_level_loop.raw_induct[rotated, where P = "\<lambda>G level q r. r \<noteq> Inl InfiniteFlow"],
    goal_cases)
  case (1 f G level q r)
  show ?case
  proof (cases q)
    case Nil
    with 1(2) show ?thesis by auto
  next
    case (Cons u q')
    show ?thesis
    proof (cases "succs G u")
      case (Inl e)
      with 1(2) Cons succs_no_infinite[OF Inl] show ?thesis by auto
    next
      case (Inr vs)
      show ?thesis
      proof (cases "level_scan G u vs (level, q')")
        case (Inl e)
        with 1(2) Cons Inr level_scan_no_infinite[OF Inl] show ?thesis by auto
      next
        case sc: (Inr st)
        with 1(2) Cons Inr have "f G (fst st) (snd st) = Some r" by simp
        from 1(1)[OF this] show ?thesis .
      qed
    qed
  qed
qed

lemma dinic_loop_no_infinite:
  assumes "dinic_loop s t G max_flow = Some r"
  shows "\<forall>G'. r \<noteq> Inl (InfiniteFlow, G')"
  using assms
proof (rule dinic_loop.raw_induct[rotated, where P = "\<lambda>s t G max_flow r.
          \<forall>G'. r \<noteq> Inl (InfiniteFlow, G')"], goal_cases)
  case (1 f s t G max_flow r)
  from 1(2) obtain r0 where l0: "bfs_level G s = Some r0"
    and rest0: "(case r0 of Inl e \<Rightarrow> Some (Inl (e, G))
       | Inr level \<Rightarrow>
          (case level t of None \<Rightarrow> Some (Inl (KeyError t, G))
           | Some lt \<Rightarrow>
               if lt < 0 then Some (Inr (max_flow, G))
               else Option.bind (blocking_flow s t level G (node_dict G 0) max_flow) (\<lambda>res2.
                    case res2 of Inl e \<Rightarrow> Some (Inl e)
                    | Inr (max_flow2, G2) \<Rightarrow> f s t G2 max_flow2))) = Some r"
    by (auto simp: bind_eq_Some_conv)
  from l0 have n0: "r0 \<noteq> Inl InfiniteFlow"
    unfolding bfs_level_def by (rule bfs_level_loop_no_infinite)
  show ?case
  proof (cases r0)
    case (Inl e)
    with rest0 n0 show ?thesis by auto
  next
    case (Inr level)
    show ?thesis
    proof (cases "level t")
      case None
      with rest0 Inr show ?thesis by auto
    next
      case (Some lt)
      show ?thesis
      proof (cases "lt < 0")
        case True
        with rest0 Inr Some show ?thesis by auto
      next
        case False
        with rest0 Inr Some obtain r2 where
          b: "blocking_flow s t level G (node_dict G 0) max_flow = Some r2"
          and rest2: "(case r2 of Inl e \<Rightarrow> Some (Inl e)
                      | Inr (max_flow2, G2) \<Rightarrow> f s t G2 max_flow2) = Some r"
          by (auto simp: bind_eq_Some_conv)
        show ?thesis
        proof (cases r2)
          case (Inl e)
          with rest2 blocking_flow_no_infinite[OF b] show ?thesis by auto
        next
          case r2: (Inr x)
          obtain mf2 G2 where x: "x = (mf2, G2)" by (cases x)
          from rest2 r2 x have "f s t G2 mf2 = Some r" by simp
          from 1(1)[OF this] show ?thesis .
        qed
      qed
    qed
  qed
qed

lemma dinic_apply_no_infinite: "dinic_apply G s t \<noteq> Some (Inl (InfiniteFlow, G'))"
  using dinic_loop_no_infinite[of s t "prepare_graph G" "Fin 0"]
  by (cases "dinic_apply G s t") (auto simp: dinic_apply_def)

section \<open>A sink that is no node: \<open>dinic_apply\<close> and \<open>push_relabel_apply\<close>\<close>

lemma finite_neg_levels: "finite (neg_levels G level)"
  by (simp add: neg_levels_def)

lemma prepared_flows_set: "prepared G \<Longrightarrow> flows_set G"
  unfolding prepared_def flows_set_def by blast

lemma level_scan_total:
  assumes a: "map_of G u = Some a" and fs: "flows_set G" and sub: "fst ` set a \<subseteq> set (nodes G)"
  shows "set vs \<subseteq> fst ` set a \<Longrightarrow> dom level = set (nodes G) \<Longrightarrow> level u = Some lu \<Longrightarrow> 0 \<le> lu \<Longrightarrow>
     (\<forall>x\<in>set q. \<exists>l. level x = Some l \<and> 0 \<le> l) \<Longrightarrow>
     \<exists>level' q'. level_scan G u vs (level, q) = Inr (level', q')
        \<and> dom level' = set (nodes G)
        \<and> (\<forall>x\<in>set q'. \<exists>l. level' x = Some l \<and> 0 \<le> l)
        \<and> 2 * card (neg_levels G level') + length q' \<le> 2 * card (neg_levels G level) + length q"
proof (induction vs arbitrary: level q)
  case Nil
  then show ?case by simp
next
  case (Cons v vs)
  from Cons.prems(1) have va: "v \<in> fst ` set a" and vs: "set vs \<subseteq> fst ` set a" by auto
  from va sub have vn: "v \<in> set (nodes G)" by auto
  with Cons.prems(2) obtain lv where lv: "level v = Some lv" by auto
  show ?case
  proof (cases "lv < 0")
    case False
    from Cons.IH[OF vs Cons.prems(2,3,4,5)] False lv show ?thesis by simp
  next
    case True
    from lookup_succ[OF a va] obtain e where e: "lookup G u v = Some e" by blast
    with fs obtain f where f: "flow e = Some f" unfolding flows_set_def by fastforce
    have r: "residual G u v = Inr (capacity e - f)" by (rule residual_lookup[OF e f])
    show ?thesis
    proof (cases "capacity e - f > 0")
      case False
      from Cons.IH[OF vs Cons.prems(2,3,4,5)] False True lv r show ?thesis by simp
    next
      case pos: True
      let ?level1 = "level(v \<mapsto> lu + 1)"
      from True lv Cons.prems(3,4) have vu: "v \<noteq> u" by auto
      have d1: "dom ?level1 = set (nodes G)" using Cons.prems(2) vn by auto
      have u1: "?level1 u = Some lu" using vu Cons.prems(3) by simp
      have q1: "\<forall>x\<in>set (q @ [v]). \<exists>l. ?level1 x = Some l \<and> 0 \<le> l"
        using Cons.prems(4,5) by auto
      from Cons.IH[OF vs d1 u1 Cons.prems(4) q1]
      obtain level' q' where res: "level_scan G u vs (?level1, q @ [v]) = Inr (level', q')"
        "dom level' = set (nodes G)" "\<forall>x\<in>set q'. \<exists>l. level' x = Some l \<and> 0 \<le> l"
        "2 * card (neg_levels G level') + length q'
           \<le> 2 * card (neg_levels G ?level1) + length (q @ [v])"
        by blast
      have "neg_levels G ?level1 = neg_levels G level - {v}"
        using Cons.prems(4) by (auto simp: neg_levels_def)
      moreover have "v \<in> neg_levels G level" using vn lv True by (simp add: neg_levels_def)
      ultimately have "card (neg_levels G ?level1) < card (neg_levels G level)"
        by (metis card_Diff1_less finite_neg_levels)
      with res(4) have "2 * card (neg_levels G level') + length q'
           \<le> 2 * card (neg_levels G level) + length q" by simp
      with res(1,2,3) True lv r pos Cons.prems(3) show ?thesis by simp
    qed
  qed
qed

lemma bfs_level_loop_total:
  assumes "wf_graph G" "flows_set G"
  shows "dom level = set (nodes G) \<Longrightarrow> (\<forall>x\<in>set q. \<exists>l. level x = Some l \<and> 0 \<le> l) \<Longrightarrow>
     \<exists>level'. bfs_level_loop G level q = Some (Inr level') \<and> dom level' = set (nodes G)"
proof (induction "2 * card (neg_levels G level) + length q" arbitrary: level q rule: less_induct)
  case less
  show ?case
  proof (cases q)
    case Nil
    with less.prems show ?thesis by (subst bfs_level_loop.simps) simp
  next
    case (Cons u q')
    from less.prems(2) Cons obtain lu where lu: "level u = Some lu" "0 \<le> lu" by auto
    with less.prems(1) have "u \<in> set (nodes G)" by auto
    then obtain a where a: "map_of G u = Some a" using map_of_node by blast
    from assms(1) a have sub: "fst ` set a \<subseteq> set (nodes G)" by (auto simp: wf_graph_iff)
    have s: "succs G u = Inr (map fst a)" by (rule succs_Inr[OF a])
    from less.prems(2) Cons have q': "\<forall>x\<in>set q'. \<exists>l. level x = Some l \<and> 0 \<le> l" by simp
    from level_scan_total[OF a assms(2) sub _ less.prems(1) lu q', of "map fst a"]
    obtain level1 q1 where sc: "level_scan G u (map fst a) (level, q') = Inr (level1, q1)"
      and d1: "dom level1 = set (nodes G)"
      and i1: "\<forall>x\<in>set q1. \<exists>l. level1 x = Some l \<and> 0 \<le> l"
      and m1: "2 * card (neg_levels G level1) + length q1 \<le> 2 * card (neg_levels G level) + length q'"
      by auto
    from m1 Cons have "2 * card (neg_levels G level1) + length q1 < 2 * card (neg_levels G level) + length q"
      by simp
    from less.hyps[OF this d1 i1] obtain level' where
      "bfs_level_loop G level1 q1 = Some (Inr level')" "dom level' = set (nodes G)" by blast
    with Cons s sc show ?thesis by (subst bfs_level_loop.simps) simp
  qed
qed

lemma bfs_level_total:
  assumes "wf_graph G" "flows_set G" "s \<in> set (nodes G)"
  shows "\<exists>level. bfs_level G s = Some (Inr level) \<and> dom level = set (nodes G)"
  unfolding bfs_level_def
  using assms(3)
  by (intro bfs_level_loop_total[OF assms(1,2)]) (auto simp: node_dict_def split: if_splits)

lemma dinic_unknown_sink:
  assumes "wf_graph G" "has_node G s" "\<not> has_node G t"
  shows "dinic_apply G s t = Some (Inl (KeyError t, prepare_graph G))"
proof -
  let ?H = "prepare_graph G"
  from assms(1) have d: "distinct (nodes G)" by (simp add: wf_graph_iff)
  have w: "wf_graph ?H" and n: "nodes ?H = nodes G" by (rule wf_prepare_graph[OF assms(1)])+
  have fs: "flows_set ?H" by (rule prepared_flows_set[OF prepared_prepare_graph[OF d]])
  from assms(2) n have "s \<in> set (nodes ?H)" by (simp add: has_node_nodes)
  from bfs_level_total[OF w fs this] obtain level where
    l: "bfs_level ?H s = Some (Inr level)" and dl: "dom level = set (nodes ?H)" by blast
  from assms(3) n dl have "level t = None" by (auto simp: has_node_nodes)
  with l show ?thesis
    unfolding dinic_apply_def by (subst dinic_loop.simps) simp
qed

subsection \<open>\<open>push_relabel_apply\<close> on a graph without self-loops\<close>

text \<open>
  \<open>push\<close> does not look at the heights, so one pass over the edges out of \<open>u\<close> either
  uses up the excess of \<open>u\<close> or fills every edge out of \<open>u\<close>. Unless \<open>u\<close> has an edge to
  itself, \<open>relabel\<close> then finds nothing to do, no height ever changes, and the main loop
  walks its worklist once.
\<close>

lemma lookup_upd_attrs_None: "lookup (upd_attrs G u v g) x y = None \<longleftrightarrow> lookup G x y = None"
  by (cases "x = u \<and> y = v") (auto simp: lookup_upd_attrs_same lookup_upd_attrs_other)

lemma succs_upd_attrs: "succs (upd_attrs G u v g) x = succs G x"
proof -
  have "map_option (map fst) (map_of (upd_attrs G u v g) x) = map_option (map fst) (map_of G x)"
    unfolding upd_attrs_def map_of_map_entry
    by (cases "map_of G u") (auto simp: nodes_map_entry)
  then show ?thesis
    by (cases "map_of (upd_attrs G u v g) x"; cases "map_of G x") (auto simp: succs_def adj_def)
qed

lemma pr_graph_inv_upd_attrs:
  assumes "pr_graph_inv G" "\<And>a. flow (g a) \<noteq> None"
  shows "pr_graph_inv (upd_attrs G u v g)"
proof -
  from assms(1) have w: "wf_graph G" and p: "prepared G" and n: "no_self_loops G"
    by (simp_all add: pr_graph_inv_def)
  have "prepared (upd_attrs G u v g)"
    unfolding prepared_def
  proof (intro allI impI)
    fix x y a assume l: "lookup (upd_attrs G u v g) x y = Some a"
    then have "lookup G x y \<noteq> None" using lookup_upd_attrs_None[of G u v g x y] by simp
    with p have r: "lookup G y x \<noteq> None" unfolding prepared_def by blast
    have "flow a \<noteq> None"
    proof (cases "x = u \<and> y = v")
      case True
      with l obtain b where "a = g b" by (auto simp: lookup_upd_attrs_same)
      with assms(2) show ?thesis by simp
    next
      case False
      then have "x \<noteq> u \<or> y \<noteq> v" by simp
      with l have "lookup G x y = Some a" by (simp add: lookup_upd_attrs_other)
      with p show ?thesis unfolding prepared_def by blast
    qed
    with r show "flow a \<noteq> None \<and> lookup (upd_attrs G u v g) y x \<noteq> None"
      by (simp add: lookup_upd_attrs_None)
  qed
  moreover have "no_self_loops (upd_attrs G u v g)"
    using n by (simp add: no_self_loops_def lookup_upd_attrs_None)
  ultimately show ?thesis using wf_upd_attrs[OF w] by (simp add: pr_graph_inv_def)
qed

lemma add_flow_total:
  assumes "lookup G u v = Some a" "flow a = Some f"
  shows "add_flow G u v d = Inr (upd_attrs G u v (\<lambda>a. a\<lparr>flow := Some (f + d)\<rparr>))"
  using assms by (simp add: add_flow_def get_flow_lookup)

lemma prepared_edge:
  assumes "prepared G" "lookup G u v \<noteq> None"
  obtains a f b g where "lookup G u v = Some a" "flow a = Some f" "lookup G v u = Some b" "flow b = Some g"
proof -
  from assms(2) obtain a where a: "lookup G u v = Some a" by auto
  with assms(1) have fa: "flow a \<noteq> None" and r: "lookup G v u \<noteq> None" unfolding prepared_def by blast+
  from r obtain b where b: "lookup G v u = Some b" by auto
  with assms(1) have fb: "flow b \<noteq> None" unfolding prepared_def by blast
  from fa fb obtain f g where "flow a = Some f" "flow b = Some g" by auto
  with a b show ?thesis using that by blast
qed

text \<open>A push along an edge of a prepared graph without self-loops.\<close>

lemma push_flow_total:
  assumes inv: "pr_graph_inv G" and e: "lookup G u v = Some a" "flow a = Some f"
  shows "\<exists>G'. push_flow G u v d = Inr G' \<and> pr_graph_inv G' \<and> nodes G' = nodes G
           \<and> (\<forall>x y. (lookup G' x y = None) = (lookup G x y = None))
           \<and> (\<forall>x. succs G' x = succs G x)
           \<and> residual G' u v = Inr (capacity a - f - d)
           \<and> (\<forall>y. y \<noteq> v \<longrightarrow> lookup G' u y = lookup G u y)"
proof -
  from inv have p: "prepared G" and n: "no_self_loops G" by (simp_all add: pr_graph_inv_def)
  from n e(1) have uv: "u \<noteq> v" by (auto simp: no_self_loops_def)
  from e(1) have "lookup G u v \<noteq> None" by simp
  with p obtain b g where b: "lookup G v u = Some b" "flow b = Some g"
    by (rule prepared_edge) auto
  let ?G1 = "upd_attrs G u v (\<lambda>a. a\<lparr>flow := Some (f + d)\<rparr>)"
  let ?G2 = "upd_attrs ?G1 v u (\<lambda>a. a\<lparr>flow := Some (g + - d)\<rparr>)"
  have 1: "add_flow G u v d = Inr ?G1" by (rule add_flow_total[OF e])
  from uv have ne: "v \<noteq> u \<or> u \<noteq> v" by simp
  have b1: "lookup ?G1 v u = Some b" by (simp add: lookup_upd_attrs_other[OF ne] b)
  have 2: "add_flow ?G1 v u (- d) = Inr ?G2" by (rule add_flow_total[OF b1 b(2)])
  have pf: "push_flow G u v d = Inr ?G2" by (simp add: push_flow_def 1 2)
  have i2: "pr_graph_inv ?G2" by (intro pr_graph_inv_upd_attrs inv) simp_all
  have n2: "nodes ?G2 = nodes G" by (simp add: nodes_upd_attrs)
  have l2: "(lookup ?G2 x y = None) = (lookup G x y = None)" for x y
    by (simp add: lookup_upd_attrs_None)
  have s2: "succs ?G2 x = succs G x" for x by (simp add: succs_upd_attrs)
  from uv have ne2: "u \<noteq> v \<or> v \<noteq> u" by simp
  have "lookup ?G2 u v = Some (a\<lparr>flow := Some (f + d)\<rparr>)"
    by (simp add: lookup_upd_attrs_other[OF ne2] lookup_upd_attrs_same e)
  then have r2: "residual ?G2 u v = Inr (capacity a - f - d)"
    by (simp add: residual_def get_capacity_def get_flow_def edge_attrs_lookup)
  have o2: "lookup ?G2 u y = lookup G u y" if "y \<noteq> v" for y
  proof -
    from that have a1: "u \<noteq> u \<or> y \<noteq> v" by simp
    from uv have a2: "u \<noteq> v \<or> y \<noteq> u" by simp
    show ?thesis
      by (simp add: lookup_upd_attrs_other[OF a2] lookup_upd_attrs_other[OF a1])
  qed
  from pf i2 n2 l2 s2 r2 o2 show ?thesis by blast
qed

lemma residual_Inr:
  "residual G u v = Inr r \<longleftrightarrow> (\<exists>a f. lookup G u v = Some a \<and> flow a = Some f \<and> r = capacity a - f)"
proof
  assume "residual G u v = Inr r"
  then obtain c f where "get_capacity G u v = Inr c" "get_flow G u v = Inr f" "r = c - f"
    by (auto simp: residual_def split: sum.splits)
  then show "\<exists>a f. lookup G u v = Some a \<and> flow a = Some f \<and> r = capacity a - f"
    by (auto simp: get_capacity_Inr get_flow_Inr)
next
  assume "\<exists>a f. lookup G u v = Some a \<and> flow a = Some f \<and> r = capacity a - f"
  then show "residual G u v = Inr r" by (auto simp: residual_lookup)
qed

lemma lookup_nodes:
  assumes "wf_graph G" "lookup G u v = Some a"
  shows "u \<in> set (nodes G)" "v \<in> set (nodes G)"
  using edges_nodes[OF assms(1) lookup_edges[OF assms(2)]] by simp_all

text \<open>
  \<open>push(u, v)\<close> on such a graph raises nothing, never raises the excess of \<open>u\<close>, and
  leaves excess at \<open>u\<close> only when the edge \<open>(u, v)\<close> has no residual capacity left.
\<close>

lemma push_total:
  assumes inv: "pr_graph_inv G" and e: "lookup G u v = Some a" "flow a = Some f"
    and xu: "ex u = Some xu" and xv: "ex v = Some xv"
  shows "\<exists>pushed G' ex' xu'. push u v (G, ex) = Inr (pushed, G', ex')
           \<and> pr_graph_inv G' \<and> nodes G' = nodes G \<and> dom ex' = dom ex
           \<and> (\<forall>x y. (lookup G' x y = None) = (lookup G x y = None))
           \<and> (\<forall>y. y \<noteq> v \<longrightarrow> lookup G' u y = lookup G u y)
           \<and> ex' u = Some xu' \<and> xu' \<le> xu
           \<and> (0 < xu' \<longrightarrow> (\<forall>r. residual G' u v = Inr r \<longrightarrow> r \<le> 0))"
proof -
  let ?r = "capacity a - f"
  have r: "residual G u v = Inr ?r" by (rule residual_lookup[OF e])
  from inv e(1) have uv: "u \<noteq> v" by (auto simp: pr_graph_inv_def no_self_loops_def)
  show ?thesis
  proof (cases "min xu ?r \<le> 0")
    case True
    then have "push u v (G, ex) = Inr (False, G, ex)" by (simp add: push_def xu r)
    moreover from True have "0 < xu \<longrightarrow> (\<forall>r. residual G u v = Inr r \<longrightarrow> r \<le> 0)"
      unfolding r by (simp add: min_def split: if_splits)
    ultimately have "push u v (G, ex) = Inr (False, G, ex)
           \<and> pr_graph_inv G \<and> nodes G = nodes G \<and> dom ex = dom ex
           \<and> (\<forall>x y. (lookup G x y = None) = (lookup G x y = None))
           \<and> (\<forall>y. y \<noteq> v \<longrightarrow> lookup G u y = lookup G u y)
           \<and> ex u = Some xu \<and> xu \<le> xu
           \<and> (0 < xu \<longrightarrow> (\<forall>r. residual G u v = Inr r \<longrightarrow> r \<le> 0))"
      using inv xu by simp
    then show ?thesis by (intro exI)
  next
    case False
    let ?d = "min xu ?r"
    from push_flow_total[OF inv e, of ?d] obtain G' where
      pf: "push_flow G u v ?d = Inr G'" and i: "pr_graph_inv G'" and n: "nodes G' = nodes G"
      and l: "\<forall>x y. (lookup G' x y = None) = (lookup G x y = None)"
      and r': "residual G' u v = Inr (?r - ?d)"
      and o: "\<forall>y. y \<noteq> v \<longrightarrow> lookup G' u y = lookup G u y" by blast
    let ?ex = "(ex(u \<mapsto> xu - ?d))(v \<mapsto> xv + ?d)"
    from False uv have p: "push u v (G, ex) = Inr (True, G', ?ex)"
      by (simp add: push_def xu r pf xv Let_def)
    from xu xv have d: "dom ?ex = dom ex" by auto
    from uv have u: "?ex u = Some (xu - ?d)" by simp
    from False have le: "xu - ?d \<le> xu" by arith
    have s: "0 < xu - ?d \<longrightarrow> (\<forall>r. residual G' u v = Inr r \<longrightarrow> r \<le> 0)"
      unfolding r' by (simp add: min_def split: if_splits)
    from p i n d l o u le s have "push u v (G, ex) = Inr (True, G', ?ex)
           \<and> pr_graph_inv G' \<and> nodes G' = nodes G \<and> dom ?ex = dom ex
           \<and> (\<forall>x y. (lookup G' x y = None) = (lookup G x y = None))
           \<and> (\<forall>y. y \<noteq> v \<longrightarrow> lookup G' u y = lookup G u y)
           \<and> ?ex u = Some (xu - ?d) \<and> xu - ?d \<le> xu
           \<and> (0 < xu - ?d \<longrightarrow> (\<forall>r. residual G' u v = Inr r \<longrightarrow> r \<le> 0))"
      by (intro conjI)
    then show ?thesis by (intro exI)
  qed
qed

text \<open>
  The \<open>for v in G[u]\<close> loop: it raises nothing, and if it leaves excess at \<open>u\<close>, every edge
  out of \<open>u\<close> is without residual capacity, the edges it has passed by its own pushes.
\<close>

lemma discharge_total:
  "pr_graph_inv G \<Longrightarrow> dom ex = set (nodes G) \<Longrightarrow> u \<in> set (nodes G) \<Longrightarrow> distinct vs \<Longrightarrow>
   (\<forall>v\<in>set vs. lookup G u v \<noteq> None) \<Longrightarrow> distinct act \<Longrightarrow> set act \<subseteq> set (nodes G) \<Longrightarrow>
   (\<forall>x. ex u = Some x \<and> 0 < x \<longrightarrow> (\<forall>v r. v \<notin> set vs \<longrightarrow> residual G u v = Inr r \<longrightarrow> r \<le> 0)) \<Longrightarrow>
   \<exists>G' ex' act'. discharge s t u vs (G, ex, act) = Inr (G', ex', act')
      \<and> pr_graph_inv G' \<and> nodes G' = nodes G \<and> dom ex' = set (nodes G)
      \<and> distinct act' \<and> set act' \<subseteq> set (nodes G) \<and> length act \<le> length act'
      \<and> (\<forall>x. ex' u = Some x \<and> 0 < x \<longrightarrow> saturated G' u)"
proof (induction vs arbitrary: G ex act)
  case Nil
  then show ?case by (simp add: saturated_def)
next
  case (Cons v vs)
  from Cons.prems(1) have w: "wf_graph G" and p: "prepared G" by (simp_all add: pr_graph_inv_def)
  from Cons.prems(5) have "lookup G u v \<noteq> None" by simp
  with p obtain a f where e: "lookup G u v = Some a" "flow a = Some f"
    by (rule prepared_edge)
  from lookup_nodes(2)[OF w e(1)] have vn: "v \<in> set (nodes G)" .
  from Cons.prems(2,3) have "u \<in> dom ex" by simp
  then obtain xu where xu: "ex u = Some xu" by (auto simp: dom_def)
  from Cons.prems(2) vn have "v \<in> dom ex" by simp
  then obtain xv where xv: "ex v = Some xv" by (auto simp: dom_def)
  from push_total[OF Cons.prems(1) e xu xv] obtain pushed G2 ex2 xu' where
    ps: "push u v (G, ex) = Inr (pushed, G2, ex2)" and i2: "pr_graph_inv G2"
    and n2: "nodes G2 = nodes G" and d2: "dom ex2 = dom ex"
    and l2: "\<forall>x y. (lookup G2 x y = None) = (lookup G x y = None)"
    and o2: "\<forall>y. y \<noteq> v \<longrightarrow> lookup G2 u y = lookup G u y"
    and u2: "ex2 u = Some xu'" and le: "xu' \<le> xu"
    and s2: "0 < xu' \<longrightarrow> (\<forall>r. residual G2 u v = Inr r \<longrightarrow> r \<le> 0)" by blast
  have dn: "\<forall>x. ex2 u = Some x \<and> 0 < x \<longrightarrow>
              (\<forall>w r. w \<notin> set vs \<longrightarrow> residual G2 u w = Inr r \<longrightarrow> r \<le> 0)"
  proof (intro allI impI)
    fix x w r assume x: "ex2 u = Some x \<and> 0 < x" and wv: "w \<notin> set vs"
      and rw: "residual G2 u w = Inr r"
    from x u2 have pos: "0 < xu'" by simp
    show "r \<le> 0"
    proof (cases "w = v")
      case True
      with s2 pos rw show ?thesis by simp
    next
      case False
      with o2 have "lookup G2 u w = lookup G u w" by simp
      with rw have "residual G u w = Inr r" by (simp add: residual_Inr)
      moreover from False wv have "w \<notin> set (v # vs)" by simp
      moreover from pos le have "0 < xu" by simp
      ultimately show ?thesis using Cons.prems(8) xu by blast
    qed
  qed
  have ih: "\<exists>G' ex' act'. discharge s t u vs (G2, ex2, act2) = Inr (G', ex', act')
      \<and> pr_graph_inv G' \<and> nodes G' = nodes G \<and> dom ex' = set (nodes G)
      \<and> distinct act' \<and> set act' \<subseteq> set (nodes G) \<and> length act \<le> length act'
      \<and> (\<forall>x. ex' u = Some x \<and> 0 < x \<longrightarrow> saturated G' u)"
    if a2: "distinct act2" "set act2 \<subseteq> set (nodes G)" "length act \<le> length act2" for act2
  proof -
    have "\<exists>G' ex' act'. discharge s t u vs (G2, ex2, act2) = Inr (G', ex', act')
      \<and> pr_graph_inv G' \<and> nodes G' = nodes G2 \<and> dom ex' = set (nodes G2)
      \<and> distinct act' \<and> set act' \<subseteq> set (nodes G2) \<and> length act2 \<le> length act'
      \<and> (\<forall>x. ex' u = Some x \<and> 0 < x \<longrightarrow> saturated G' u)" (is "\<exists>G' ex' act'. ?Q G' ex' act'")
    proof (rule Cons.IH)
      show "pr_graph_inv G2" by (rule i2)
      show "dom ex2 = set (nodes G2)" using d2 n2 Cons.prems(2) by simp
      show "u \<in> set (nodes G2)" using n2 Cons.prems(3) by simp
      show "distinct vs" using Cons.prems(4) by simp
      show "\<forall>v\<in>set vs. lookup G2 u v \<noteq> None" using l2 Cons.prems(5) by simp
      show "distinct act2" by (rule a2(1))
      show "set act2 \<subseteq> set (nodes G2)" using a2(2) n2 by simp
      show "\<forall>x. ex2 u = Some x \<and> 0 < x \<longrightarrow>
              (\<forall>w r. w \<notin> set vs \<longrightarrow> residual G2 u w = Inr r \<longrightarrow> r \<le> 0)" by (rule dn)
    qed
    then obtain G' ex' act' where q: "?Q G' ex' act'" by blast
    from q a2(3) have "length act \<le> length act'" by simp
    with q show ?thesis unfolding n2 by (intro exI[of _ G'] exI[of _ ex'] exI[of _ act']) simp
  qed
  show ?case
  proof (cases pushed)
    case False
    with ps have "discharge s t u (v # vs) (G, ex, act) = discharge s t u vs (G2, ex2, act)"
      by simp
    with ih[of act] Cons.prems(6,7) show ?thesis by simp
  next
    case True
    from d2 Cons.prems(2) vn have "v \<in> dom ex2" by simp
    then obtain xv2 where xv2: "ex2 v = Some xv2" by (auto simp: dom_def)
    define act2 where "act2 = (if v \<noteq> s \<and> v \<noteq> t \<and> 0 < xv2 \<and> v \<notin> set act then act @ [v] else act)"
    have a2: "distinct act2" "set act2 \<subseteq> set (nodes G)" "length act \<le> length act2"
      using Cons.prems(6,7) vn by (auto simp: act2_def)
    show ?thesis
    proof (cases "xu' = 0")
      case z: True
      from True ps have "discharge s t u (v # vs) (G, ex, act) = Inr (G2, ex2, act2)"
        by (auto simp: xv2 u2 z act2_def)
      with i2 n2 d2 Cons.prems(2) a2 u2 z show ?thesis by simp
    next
      case nz: False
      from True ps have "discharge s t u (v # vs) (G, ex, act) = discharge s t u vs (G2, ex2, act2)"
        by (auto simp: xv2 u2 nz act2_def)
      with ih[OF a2] show ?thesis by simp
    qed
  qed
qed

lemma no_self_loops_prepare_edge:
  assumes "no_self_loops G" "u \<noteq> v"
  shows "no_self_loops (prepare_edge G (u, v))"
  unfolding no_self_loops_def
proof
  fix x
  from assms(2) have "x \<noteq> u \<or> x \<noteq> v" "x \<noteq> v \<or> x \<noteq> u" by auto
  from lookup_prepare_edge_other[OF this] assms(1)
  show "lookup (prepare_edge G (u, v)) x x = None" by (simp add: no_self_loops_def)
qed

lemma no_self_loops_prepare_graph:
  assumes "wf_graph G" "no_self_loops G"
  shows "no_self_loops (prepare_graph G)"
proof -
  have "no_self_loops H \<Longrightarrow> (\<forall>e\<in>set es. fst e \<noteq> snd e) \<Longrightarrow> no_self_loops (foldl prepare_edge H es)"
    for H es
  proof (induction es arbitrary: H)
    case Nil
    then show ?case by simp
  next
    case (Cons e es)
    obtain u v where e: "e = (u, v)" by (cases e)
    from Cons.prems(2) have "u \<noteq> v" by (simp add: e)
    from no_self_loops_prepare_edge[OF Cons.prems(1) this] Cons.prems(2)
    show ?case by (simp add: e Cons.IH)
  qed
  moreover from assms(1) have d: "distinct (nodes G)" by (simp add: wf_graph_iff)
  have "\<forall>e\<in>set (edges G). fst e \<noteq> snd e"
  proof
    fix e assume "e \<in> set (edges G)"
    then have "(fst e, snd e) \<in> set (edges G)" by simp
    from edges_lookup[OF d this] assms(2) show "fst e \<noteq> snd e"
      by (auto simp: no_self_loops_def)
  qed
  ultimately show ?thesis using assms(2) by (simp add: prepare_graph_def)
qed

lemma pr_graph_inv_prepare_graph:
  assumes "wf_graph G" "no_self_loops G"
  shows "pr_graph_inv (prepare_graph G)"
proof -
  from assms(1) have d: "distinct (nodes G)" by (simp add: wf_graph_iff)
  from wf_prepare_graph(1)[OF assms(1)] prepared_prepare_graph[OF d]
    no_self_loops_prepare_graph[OF assms]
  show ?thesis by (simp add: pr_graph_inv_def)
qed

text \<open>The successors of a node of such a graph: distinct, each at the end of an edge with a flow.\<close>

lemma succs_total:
  assumes "wf_graph G" "u \<in> set (nodes G)"
  shows "\<exists>vs. succs G u = Inr vs \<and> distinct vs \<and> (\<forall>v. v \<in> set vs \<longleftrightarrow> lookup G u v \<noteq> None)"
proof -
  from map_of_node[OF assms(2)] obtain a where a: "map_of G u = Some a" by blast
  from assms(1) a have d: "distinct (map fst a)" by (auto simp: wf_graph_iff)
  have "v \<in> set (map fst a) \<longleftrightarrow> lookup G u v \<noteq> None" for v
    by (simp add: lookup_def a map_of_eq_None_iff)
  with succs_Inr[OF a] d show ?thesis by simp
qed

lemma min_height_saturated:
  "saturated G u \<Longrightarrow> (\<forall>v\<in>set vs. \<exists>r. residual G u v = Inr r) \<Longrightarrow>
   min_height G height u vs m = Inr m"
proof (induction vs)
  case Nil
  then show ?case by simp
next
  case (Cons v vs)
  from Cons.prems(2) obtain r where r: "residual G u v = Inr r" by auto
  with Cons.prems(1) have "r \<le> 0" by (simp add: saturated_def)
  with r Cons show ?case by simp
qed

text \<open>\<open>relabel(u)\<close> finds no edge with residual capacity: \<open>min_h\<close> stays infinite, no height changes.\<close>

lemma relabel_saturated:
  assumes "pr_graph_inv G" "u \<in> set (nodes G)" "saturated G u"
  shows "relabel G u height = Inr height"
proof -
  from assms(1) have w: "wf_graph G" and p: "prepared G" by (simp_all add: pr_graph_inv_def)
  from succs_total[OF w assms(2)] obtain vs where vs: "succs G u = Inr vs"
    and l: "\<And>v. v \<in> set vs \<longleftrightarrow> lookup G u v \<noteq> None" by blast
  have "\<forall>v\<in>set vs. \<exists>r. residual G u v = Inr r"
  proof
    fix v assume "v \<in> set vs"
    with l have "lookup G u v \<noteq> None" by simp
    with p obtain a f where "lookup G u v = Some a" "flow a = Some f" by (rule prepared_edge)
    then show "\<exists>r. residual G u v = Inr r" by (auto simp: residual_lookup)
  qed
  from min_height_saturated[OF assms(3) this] vs show ?thesis by (simp add: relabel_def)
qed

text \<open>
  One round of the main loop on such a graph: no error, no height changes, so the entry is
  not moved to the front and \<open>i\<close> goes up by one.
\<close>

lemma pr_round_total:
  assumes inv: "pr_graph_inv (pr_graph st)"
    and dh: "dom (pr_height st) = set (nodes (pr_graph st))"
    and de: "dom (pr_excess st) = set (nodes (pr_graph st))"
    and da: "distinct (pr_active st)" and sa: "set (pr_active st) \<subseteq> set (nodes (pr_graph st))"
    and i: "pr_i st < length (pr_active st)"
  shows "\<exists>st'. pr_round s t st = Inr st' \<and> pr_graph_inv (pr_graph st')
           \<and> nodes (pr_graph st') = nodes (pr_graph st)
           \<and> dom (pr_height st') = set (nodes (pr_graph st))
           \<and> dom (pr_excess st') = set (nodes (pr_graph st))
           \<and> distinct (pr_active st') \<and> set (pr_active st') \<subseteq> set (nodes (pr_graph st))
           \<and> pr_i st' = Suc (pr_i st)"
proof -
  let ?G = "pr_graph st"
  let ?u = "pr_active st ! pr_i st"
  from inv have w: "wf_graph ?G" by (simp add: pr_graph_inv_def)
  from i sa have un: "?u \<in> set (nodes ?G)" by (meson nth_mem subsetD)
  with dh have "?u \<in> dom (pr_height st)" by simp
  then obtain old_h where h: "pr_height st ?u = Some old_h" by (auto simp: dom_def)
  from succs_total[OF w un] obtain vs where vs: "succs ?G ?u = Inr vs" and dv: "distinct vs"
    and l: "\<And>v. v \<in> set vs \<longleftrightarrow> lookup ?G ?u v \<noteq> None" by blast
  have "\<exists>G' ex' act'. discharge s t ?u vs (?G, pr_excess st, pr_active st) = Inr (G', ex', act')
      \<and> pr_graph_inv G' \<and> nodes G' = nodes ?G \<and> dom ex' = set (nodes ?G)
      \<and> distinct act' \<and> set act' \<subseteq> set (nodes ?G) \<and> length (pr_active st) \<le> length act'
      \<and> (\<forall>x. ex' ?u = Some x \<and> 0 < x \<longrightarrow> saturated G' ?u)"
  proof (rule discharge_total[OF inv de un dv _ da sa])
    show "\<forall>v\<in>set vs. lookup ?G ?u v \<noteq> None" using l by simp
    show "\<forall>x. pr_excess st ?u = Some x \<and> 0 < x \<longrightarrow>
            (\<forall>v r. v \<notin> set vs \<longrightarrow> residual ?G ?u v = Inr r \<longrightarrow> r \<le> 0)"
      using l by (auto simp: residual_Inr)
  qed
  then obtain G' ex' act' where
    dc: "discharge s t ?u vs (?G, pr_excess st, pr_active st) = Inr (G', ex', act')"
    and i': "pr_graph_inv G'" and n': "nodes G' = nodes ?G" and d': "dom ex' = set (nodes ?G)"
    and a': "distinct act'" "set act' \<subseteq> set (nodes ?G)"
    and st: "\<forall>x. ex' ?u = Some x \<and> 0 < x \<longrightarrow> saturated G' ?u" by blast
  from d' un have "?u \<in> dom ex'" by simp
  then obtain xu where xu: "ex' ?u = Some xu" by (auto simp: dom_def)
  have rl: "(if xu > 0 then relabel G' ?u (pr_height st) else Inr (pr_height st)) = Inr (pr_height st)"
  proof (cases "xu > 0")
    case True
    with st xu have "saturated G' ?u" by simp
    from relabel_saturated[OF i' _ this, of "pr_height st"] un n' True show ?thesis by simp
  next
    case False
    then show ?thesis by simp
  qed
  have "pr_round s t st = Inr \<lparr>pr_graph = G', pr_height = pr_height st, pr_excess = ex',
                                pr_active = act', pr_i = pr_i st + 1\<rparr>"
    by (simp add: pr_round_def Let_def h vs dc xu rl del: if_split)
  with i' n' d' a' dh show ?thesis by simp
qed

text \<open>
  So the main loop ends after at most one round for each node: the worklist holds no
  node twice, and \<open>i\<close> only goes up.
\<close>

lemma pr_loop_total:
  "pr_graph_inv (pr_graph st) \<Longrightarrow> dom (pr_height st) = set (nodes (pr_graph st)) \<Longrightarrow>
   dom (pr_excess st) = set (nodes (pr_graph st)) \<Longrightarrow> distinct (pr_active st) \<Longrightarrow>
   set (pr_active st) \<subseteq> set (nodes (pr_graph st)) \<Longrightarrow>
   \<exists>st'. pr_loop s t st = Some (Inr st') \<and> nodes (pr_graph st') = nodes (pr_graph st)"
proof (induction "length (nodes (pr_graph st)) - pr_i st" arbitrary: st rule: less_induct)
  case less
  show ?case
  proof (cases "pr_i st < length (pr_active st)")
    case False
    then show ?thesis by (subst pr_loop.simps) simp
  next
    case True
    from pr_round_total[OF less.prems True, of s t] obtain st2 where
      r: "pr_round s t st = Inr st2" and i2: "pr_graph_inv (pr_graph st2)"
      and n2: "nodes (pr_graph st2) = nodes (pr_graph st)"
      and h2: "dom (pr_height st2) = set (nodes (pr_graph st))"
      and e2: "dom (pr_excess st2) = set (nodes (pr_graph st))"
      and a2: "distinct (pr_active st2)" "set (pr_active st2) \<subseteq> set (nodes (pr_graph st))"
      and j2: "pr_i st2 = Suc (pr_i st)" by blast
    from less.prems(4,5) have "length (pr_active st) \<le> length (nodes (pr_graph st))"
      by (metis card_length card_mono distinct_card List.finite_set le_trans)
    with True have m: "length (nodes (pr_graph st2)) - pr_i st2 < length (nodes (pr_graph st)) - pr_i st"
      by (simp add: n2 j2)
    have "\<exists>st'. pr_loop s t st2 = Some (Inr st') \<and> nodes (pr_graph st') = nodes (pr_graph st2)"
      using m i2 h2 e2 a2 by (intro less.hyps) (simp_all add: n2)
    then obtain st' where "pr_loop s t st2 = Some (Inr st')" "nodes (pr_graph st') = nodes (pr_graph st)"
      by (auto simp: n2)
    with True r show ?thesis by (subst pr_loop.simps) simp
  qed
qed

text \<open>What comes before the main loop.\<close>

lemma saturate_total:
  "pr_graph_inv G \<Longrightarrow> dom ex = set (nodes G) \<Longrightarrow> (\<forall>v\<in>set vs. lookup G s v \<noteq> None) \<Longrightarrow>
   \<exists>G' ex'. saturate s vs (G, ex) = Inr (G', ex') \<and> pr_graph_inv G' \<and> nodes G' = nodes G
      \<and> dom ex' = set (nodes G)"
proof (induction vs arbitrary: G ex)
  case Nil
  then show ?case by simp
next
  case (Cons v vs)
  from Cons.prems(1) have w: "wf_graph G" and p: "prepared G" and ns: "no_self_loops G"
    by (simp_all add: pr_graph_inv_def)
  from Cons.prems(3) have "lookup G s v \<noteq> None" by simp
  with p obtain a f b g where e: "lookup G s v = Some a" "flow a = Some f"
    and b: "lookup G v s = Some b" "flow b = Some g" by (rule prepared_edge)
  from ns e(1) have sv: "s \<noteq> v" by (auto simp: no_self_loops_def)
  let ?c = "capacity a"
  let ?G1 = "upd_attrs G s v (\<lambda>a. a\<lparr>flow := Some ?c\<rparr>)"
  let ?G2 = "upd_attrs ?G1 v s (\<lambda>a. a\<lparr>flow := Some (g + - ?c)\<rparr>)"
  have 1: "get_capacity G s v = Inr ?c" by (rule get_capacity_lookup[OF e(1)])
  have 2: "set_flow G s v ?c = Inr ?G1" by (simp add: set_flow_def edge_attrs_lookup[OF e(1)])
  from sv have ne: "v \<noteq> s \<or> s \<noteq> v" by simp
  have b1: "lookup ?G1 v s = Some b" by (simp add: lookup_upd_attrs_other[OF ne] b)
  have 3: "add_flow ?G1 v s (- ?c) = Inr ?G2" by (rule add_flow_total[OF b1 b(2)])
  from lookup_nodes(2)[OF w e(1)] Cons.prems(2) have "v \<in> dom ex" by simp
  then obtain x where x: "ex v = Some x" by (auto simp: dom_def)
  have i2: "pr_graph_inv ?G2" by (intro pr_graph_inv_upd_attrs Cons.prems(1)) simp_all
  have n2: "nodes ?G2 = nodes G" by (simp add: nodes_upd_attrs)
  have "\<exists>G' ex'. saturate s vs (?G2, ex(v \<mapsto> x + ?c)) = Inr (G', ex') \<and> pr_graph_inv G'
      \<and> nodes G' = nodes ?G2 \<and> dom ex' = set (nodes ?G2)"
  proof (rule Cons.IH[OF i2])
    from x Cons.prems(2) show "dom (ex(v \<mapsto> x + ?c)) = set (nodes ?G2)"
      unfolding n2 by auto
    from Cons.prems(3) show "\<forall>v\<in>set vs. lookup ?G2 s v \<noteq> None"
      by (simp add: lookup_upd_attrs_None)
  qed
  then obtain G' ex' where "saturate s vs (?G2, ex(v \<mapsto> x + ?c)) = Inr (G', ex')"
    "pr_graph_inv G'" "nodes G' = nodes G" "dom ex' = set (nodes G)"
    unfolding n2 by blast
  moreover have "saturate s (v # vs) (G, ex) = saturate s vs (?G2, ex(v \<mapsto> x + ?c))"
    by (simp add: 1 2 3 x)
  ultimately show ?case by simp
qed

lemma initial_active_total:
  "set us \<subseteq> dom ex \<Longrightarrow> distinct us \<Longrightarrow>
   \<exists>act. initial_active s t ex us = Inr act \<and> distinct act \<and> set act \<subseteq> set us"
proof (induction us)
  case Nil
  then show ?case by simp
next
  case (Cons u us)
  then obtain act where a: "initial_active s t ex us = Inr act" "distinct act" "set act \<subseteq> set us"
    by auto
  from Cons.prems(1) obtain x where x: "ex u = Some x" by (auto simp: dom_def)
  from Cons.prems(2) a(3) have "u \<notin> set act" by auto
  with a x show ?case by auto
qed

lemma pr_init_total:
  assumes "pr_graph_inv G" "s \<in> set (nodes G)"
  shows "\<exists>st. pr_init G s t = Inr st \<and> pr_graph_inv (pr_graph st)
           \<and> nodes (pr_graph st) = nodes G
           \<and> dom (pr_height st) = set (nodes G) \<and> dom (pr_excess st) = set (nodes G)
           \<and> distinct (pr_active st) \<and> set (pr_active st) \<subseteq> set (nodes G)"
proof -
  from assms(1) have w: "wf_graph G" by (simp add: pr_graph_inv_def)
  from succs_total[OF w assms(2)] obtain vs where vs: "succs G s = Inr vs"
    and l: "\<And>v. v \<in> set vs \<longleftrightarrow> lookup G s v \<noteq> None" by blast
  have d0: "dom (node_dict G (0::int)) = set (nodes G)"
    by (auto simp: node_dict_def split: if_splits)
  from l have "\<forall>v\<in>set vs. lookup G s v \<noteq> None" by simp
  from saturate_total[OF assms(1) d0 this] obtain G2 ex2 where
    s: "saturate s vs (G, node_dict G 0) = Inr (G2, ex2)" and i2: "pr_graph_inv G2"
    and n2: "nodes G2 = nodes G" and d2: "dom ex2 = set (nodes G)" by blast
  from w have "distinct (nodes G)" by (simp add: wf_graph_iff)
  with d2 n2 have "\<exists>act. initial_active s t ex2 (nodes G2) = Inr act \<and> distinct act
      \<and> set act \<subseteq> set (nodes G2)"
    by (intro initial_active_total) simp_all
  then obtain act where a: "initial_active s t ex2 (nodes G2) = Inr act" "distinct act"
    "set act \<subseteq> set (nodes G)" by (auto simp: n2)
  have dh: "dom ((node_dict G (0::int))(s \<mapsto> int (length (nodes G)))) = set (nodes G)"
    using assms(2) d0 by auto
  have "pr_init G s t = Inr \<lparr>pr_graph = G2, pr_height = (node_dict G 0)(s \<mapsto> int (length (nodes G))),
                             pr_excess = ex2, pr_active = act, pr_i = 0\<rparr>"
    by (simp add: pr_init_def Let_def vs s a(1))
  with i2 n2 d2 a(2,3) dh show ?thesis by simp
qed

text \<open>
  A sink that is no node, on a graph without self-loops: \<open>push_relabel_apply\<close> runs to the
  end of its main loop and fails at \<open>G.predecessors(t)\<close>.
\<close>

lemma push_relabel_unknown_sink:
  assumes "wf_graph G" "no_self_loops G" "has_node G s" "\<not> has_node G t"
  shows "\<exists>G'. push_relabel_apply G s t = Some (Inl (NetworkXError t, G')) \<and> nodes G' = nodes G"
proof -
  let ?H = "prepare_graph G"
  have n: "nodes ?H = nodes G" by (rule wf_prepare_graph(2)[OF assms(1)])
  have i: "pr_graph_inv ?H" by (rule pr_graph_inv_prepare_graph[OF assms(1,2)])
  from assms(3) n have "s \<in> set (nodes ?H)" by (simp add: has_node_nodes)
  from pr_init_total[OF i this, of t] obtain st0 where
    p0: "pr_init ?H s t = Inr st0" and i0: "pr_graph_inv (pr_graph st0)"
    and n0: "nodes (pr_graph st0) = nodes ?H"
    and h0: "dom (pr_height st0) = set (nodes ?H)" and e0: "dom (pr_excess st0) = set (nodes ?H)"
    and a0: "distinct (pr_active st0)" "set (pr_active st0) \<subseteq> set (nodes ?H)" by blast
  have "\<exists>st'. pr_loop s t st0 = Some (Inr st') \<and> nodes (pr_graph st') = nodes (pr_graph st0)"
    using i0 h0 e0 a0 by (intro pr_loop_total) (simp_all add: n0)
  then obtain st where l: "pr_loop s t st0 = Some (Inr st)" and ns: "nodes (pr_graph st) = nodes G"
    by (auto simp: n0 n)
  from assms(4) ns have "\<not> has_node (pr_graph st) t" by (simp add: has_node_nodes)
  then have "predecessors (pr_graph st) t = Inl (NetworkXError t)" by (simp add: predecessors_def)
  with p0 l ns show ?thesis by (simp add: push_relabel_apply_def)
qed

text \<open>An executable test for \<open>no_self_loops\<close>.\<close>

lemma no_self_loopsI:
  assumes "list_all (\<lambda>ua. list_all (\<lambda>ve. fst ve \<noteq> fst ua) (snd ua)) G"
  shows "no_self_loops G"
  unfolding no_self_loops_def
proof
  fix u
  show "lookup G u u = None"
  proof (cases "map_of G u")
    case None
    then show ?thesis by (simp add: lookup_def)
  next
    case (Some a)
    then have m: "(u, a) \<in> set G" by (rule map_of_SomeD)
    from assms have "\<forall>ua\<in>set G. \<forall>ve\<in>set (snd ua). fst ve \<noteq> fst ua"
      by (simp add: list_all_iff)
    from bspec[OF this m] have "\<forall>ve\<in>set a. fst ve \<noteq> u" by simp
    then have "u \<notin> fst ` set a" by auto
    then have "map_of a u = None" by (simp add: map_of_eq_None_iff)
    with Some show ?thesis by (simp add: lookup_def)
  qed
qed

section \<open>Arguments that are no nodes\<close>

text \<open>
  C5, as the code has it. No solver checks its arguments; what happens is what the first
  access to the missing node does. On a well-formed graph \<open>G\<close>:

  A source that is no node makes each solver fail with the \<open>KeyError\<close> of its first
  \<open>G[s]\<close>. The graph is then \<open>prepare_graph G\<close>, in \<open>edmonds_karp_steps\<close> with every flow
  reset to 0; that is \<open>G\<close> itself only if \<open>G\<close> was in this state already.

  A sink that is no node, with a source that is one: \<open>edmonds_karp_steps\<close> does not fail,
  its search finds no path and it returns no steps and the flow 0, on the prepared and
  reset graph. \<open>dinic_apply\<close> builds its first level graph and fails with the \<open>KeyError\<close>
  of \<open>level[t]\<close>, the graph being \<open>prepare_graph G\<close>. \<open>push_relabel_apply\<close>, on a graph
  without self-loops, saturates the edges out of the source, runs its main loop to the end
  and fails with the \<open>NetworkXError\<close> of \<open>G.predecessors(t)\<close>; the graph it leaves has
  the nodes of \<open>G\<close>.
\<close>

theorem unknown_node_behaviour:
  assumes "wf_graph G"
  shows "(\<not> has_node G s \<longrightarrow>
            edmonds_karp_steps G s t = Some (Inl (KeyError s, reset_flows (prepare_graph G)))
          \<and> dinic_apply G s t = Some (Inl (KeyError s, prepare_graph G))
          \<and> push_relabel_apply G s t = Some (Inl (KeyError s, prepare_graph G)))
       \<and> (has_node G s \<and> \<not> has_node G t \<longrightarrow>
            edmonds_karp_steps G s t = Some (Inr (([], Fin 0), reset_flows (prepare_graph G)))
          \<and> dinic_apply G s t = Some (Inl (KeyError t, prepare_graph G))
          \<and> (no_self_loops G \<longrightarrow>
                (\<exists>G'. push_relabel_apply G s t = Some (Inl (NetworkXError t, G'))
                      \<and> nodes G' = nodes G)))"
  using assms
  by (simp add: edmonds_karp_unknown_source dinic_unknown_source push_relabel_unknown_source
      edmonds_karp_unknown_sink dinic_unknown_sink push_relabel_unknown_sink)

theorem unknown_node_behaviour_witness:
  "wf_graph line \<and> \<not> has_node line ''X'' \<and> has_node line ''S'' \<and> no_self_loops line
   \<and> edmonds_karp_steps line ''X'' ''T'' = Some (Inl (KeyError ''X'', reset_flows (prepare_graph line)))
   \<and> dinic_apply line ''X'' ''T'' = Some (Inl (KeyError ''X'', prepare_graph line))
   \<and> push_relabel_apply line ''X'' ''T'' = Some (Inl (KeyError ''X'', prepare_graph line))
   \<and> edmonds_karp_steps line ''S'' ''X'' = Some (Inr (([], Fin 0), reset_flows (prepare_graph line)))
   \<and> dinic_apply line ''S'' ''X'' = Some (Inl (KeyError ''X'', prepare_graph line))
   \<and> (\<exists>G'. push_relabel_apply line ''S'' ''X'' = Some (Inl (NetworkXError ''X'', G'))
            \<and> nodes G' = nodes line)
   \<and> prepare_graph line \<noteq> line"
proof -
  have h: "wf_graph line" by code_simp
  have x: "\<not> has_node line ''X''" by code_simp
  have s: "has_node line ''S''" by code_simp
  have n: "prepare_graph line \<noteq> line" by code_simp
  have l: "no_self_loops line" by (rule no_self_loopsI) code_simp
  from unknown_node_behaviour[OF h, of "''X''" "''T''"] unknown_node_behaviour[OF h, of "''S''" "''X''"]
    h x s n l
  show ?thesis by simp
qed

end
